theory Spec2Isabelle
  imports Complex_Main
begin

section \<open>Errors and outcomes\<close>

text \<open>
  The Python exceptions that the modelled code can raise. A method of the visualizer ends in
  one of three ways: it returns, an exception escapes it, or it sits in a blocking call of
  a multiprocessing primitive. Each outcome carries the state as the method left it.
\<close>

datatype py_error =
    KeyError | TypeError | IndexError | RuntimeError | Full | UnboundLocalError | AssertionError

datatype 'a outcome = Returns 'a | Raises py_error 'a | Blocks 'a

section \<open>experiments/overfit.py: the training loop\<close>

text \<open>
  \<^verbatim>\<open>main\<close> drives code that is not part of the two files: the sampler, the model with its
  optimizer, the metric and the decoder. They are parameters of the model of the loop:
  \<^item> \<open>sample_point_cloud_pc i\<close> is the pair \<^verbatim>\<open>x, labels\<close> drawn in iteration \<open>i\<close>;
  \<^item> \<open>model_step m x\<close> is \<^verbatim>\<open>model.step(x, labels, optimizer)\<close>: the updated model (with
    its optimizer), the predictions and the loss;
  \<^item> \<open>chamfer_input x p\<close> is \<^verbatim>\<open>metric(x[positive_idxs].unsqueeze(0), x[labels].unsqueeze(0))\<close>
    with \<^verbatim>\<open>positive_idxs\<close> computed from the predictions \<open>p\<close> (lines 78-82 and 92-101);
  \<^item> \<open>chamfer_decoded m\<close> is \<^verbatim>\<open>metric(final_pc, gt)\<close> for the cloud decoded by
    \<^verbatim>\<open>model.to_pc\<close> (lines 111-123).
  Floating-point numbers are modelled as reals.
\<close>

record ('m, 'x, 'p) externals =
  sample_point_cloud_pc :: "nat \<Rightarrow> 'x"
  model_step :: "'m \<Rightarrow> 'x \<Rightarrow> 'm \<times> 'p \<times> real"
  chamfer_input :: "'x \<Rightarrow> 'p \<Rightarrow> real"
  chamfer_decoded :: "'m \<Rightarrow> real"

text \<open>
  What the loop does to the outside world, in order: the scalars and figures reported to the
  logger (title, series and iteration; the figure itself is left out), the state
  dictionaries written with \<^verbatim>\<open>torch.save\<close> (file name and saved model), and the
  postfix shown on the progress bar.
\<close>

datatype 'm effect =
    Report_scalar string string real nat
  | Report_plotly string string nat
  | Torch_save string 'm
  | Set_postfix real

text \<open>
  The variables of \<^verbatim>\<open>main\<close> that live across iterations. \<open>best\<close> starts as
  \<^verbatim>\<open>np.inf\<close>, written \<open>None\<close>; \<open>chamfer_real\<close> is unbound (\<open>None\<close>) until
  line 82 first assigns it.
\<close>

record 'm train =
  model :: 'm
  best :: "real option"
  chamfer_real :: "real option"
  effects :: "'m effect list"

definition emit :: "'m effect \<Rightarrow> 'm train \<Rightarrow> 'm train" where
  "emit e st = st\<lparr>effects := effects st @ [e]\<rparr>"

text \<open>\<^verbatim>\<open>best > chamfer_real\<close> (line 133), with \<open>None\<close> for infinity.\<close>

fun best_gt :: "real option \<Rightarrow> real \<Rightarrow> bool" where
  "best_gt None c = True"
| "best_gt (Some b) c = (b > c)"

text \<open>Lines 77-85: the block run when \<^verbatim>\<open>(i + 1) % 1000 == 0\<close>.\<close>

definition log_metrics ::
  "('m, 'x, 'p) externals \<Rightarrow> nat \<Rightarrow> 'x \<Rightarrow> 'p \<Rightarrow> real \<Rightarrow> 'm train \<Rightarrow> 'm train" where
  "log_metrics ext i x predictions loss st =
     (let c = chamfer_input ext x predictions;
          st1 = st\<lparr>chamfer_real := Some c\<rparr>;
          st2 = emit (Report_scalar ''Loss'' ''loss'' loss i) st1
      in emit (Report_scalar ''Chamfer'' ''chamfer'' (c * 100) i) st2)"

text \<open>
  Lines 87-135: the block run when \<^verbatim>\<open>(i + 1) % 5000 == 0\<close>. Reading
  \<^verbatim>\<open>chamfer_real\<close> on line 133 raises \<^verbatim>\<open>UnboundLocalError\<close> when line 82 never ran.
\<close>

definition checkpoint ::
  "('m, 'x, 'p) externals \<Rightarrow> nat \<Rightarrow> 'm train \<Rightarrow> py_error + 'm train" where
  "checkpoint ext i st =
     (let st1 = emit (Report_plotly ''Point Clouds'' ''precision_recall'' i) st;
          st2 = emit (Report_plotly ''Point Clouds'' ''reconstruction'' i) st1;
          st3 = emit (Report_scalar ''Chamfer'' ''real'' (chamfer_decoded ext (model st) * 100) i) st2;
          st4 = emit (Report_plotly ''Point Clouds'' ''input points'' i) st3;
          st5 = emit (Torch_save ''latest.pth'' (model st)) st4
      in case chamfer_real st5 of
           None \<Rightarrow> Inl UnboundLocalError
         | Some c \<Rightarrow>
             if best_gt (best st5) c
             then Inr ((emit (Torch_save ''best.pth'' (model st)) st5)\<lparr>best := Some c\<rparr>)
             else Inr st5)"

text \<open>Lines 68-137: one pass through the body of the \<^verbatim>\<open>for\<close> loop.\<close>

definition body ::
  "('m, 'x, 'p) externals \<Rightarrow> nat \<Rightarrow> 'm train \<Rightarrow> py_error + 'm train" where
  "body ext i st =
     (let x = sample_point_cloud_pc ext i;
          (m, predictions, loss) = model_step ext (model st) x;
          st1 = st\<lparr>model := m\<rparr>;
          st2 = (if (i + 1) mod 1000 = 0 then log_metrics ext i x predictions loss st1 else st1)
      in case (if (i + 1) mod 5000 = 0 then checkpoint ext i st2 else Inr st2) of
           Inl e \<Rightarrow> Inl e
         | Inr st3 \<Rightarrow> Inr (emit (Set_postfix loss) st3))"

text \<open>\<^verbatim>\<open>for i in range\<close>: the body for each index in turn, stopping at an exception.\<close>

primrec loop ::
  "('m, 'x, 'p) externals \<Rightarrow> nat list \<Rightarrow> 'm train \<Rightarrow> py_error + 'm train" where
  "loop ext [] st = Inr st"
| "loop ext (i # is) st = (case body ext i st of Inl e \<Rightarrow> Inl e | Inr st' \<Rightarrow> loop ext is st')"

text \<open>
  \<^verbatim>\<open>main\<close> from line 63 on, for \<^verbatim>\<open>Train.epochs = epochs\<close> and the model \<open>m0\<close> as
  initialised on lines 47-53.
\<close>

definition main :: "('m, 'x, 'p) externals \<Rightarrow> nat \<Rightarrow> 'm \<Rightarrow> py_error + 'm train" where
  "main ext epochs m0 =
     loop ext [0..<epochs] \<lparr>model = m0, best = None, chamfer_real = None, effects = []\<rparr>"

text \<open>
  Two notions used to state the properties of the checkpoint logic. \<open>chamfer_at ext m0 j\<close>
  is the value line 82 computes in iteration \<open>j\<close> of the run that starts from \<open>m0\<close>: the
  metric of that iteration's sample and predictions. \<open>checkpoint_values ext m0 n\<close> lists
  these values for the checkpoint iterations among the first \<open>n\<close>.
\<close>

definition chamfer_at :: "('m, 'x, 'p) externals \<Rightarrow> 'm \<Rightarrow> nat \<Rightarrow> real" where
  "chamfer_at ext m0 j =
     (case main ext j m0 of
        Inl e \<Rightarrow> 0
      | Inr st \<Rightarrow>
          (let x = sample_point_cloud_pc ext j;
               (m, predictions, loss) = model_step ext (model st) x
           in chamfer_input ext x predictions))"

definition checkpoint_values :: "('m, 'x, 'p) externals \<Rightarrow> 'm \<Rightarrow> nat \<Rightarrow> real list" where
  "checkpoint_values ext m0 n =
     map (chamfer_at ext m0) (filter (\<lambda>j. (j + 1) mod 5000 = 0) [0..<n])"

text \<open>The order on values of \<open>best\<close>, with \<open>None\<close> (infinity) on top.\<close>

fun best_le :: "real option \<Rightarrow> real option \<Rightarrow> bool" where
  "best_le a None = True"
| "best_le None (Some b) = False"
| "best_le (Some a) (Some b) = (a \<le> b)"

section \<open>The Chamfer distance\<close>

type_synonym point = "real \<times> real \<times> real"

definition distance :: "point \<Rightarrow> point \<Rightarrow> real" where
  "distance p q =
     (case p of (x, y, z) \<Rightarrow> case q of (x', y', z') \<Rightarrow>
        sqrt ((x - x')\<^sup>2 + (y - y')\<^sup>2 + (z - z')\<^sup>2))"

text \<open>The distance from \<open>p\<close> to its nearest neighbour in a non-empty cloud.\<close>

fun nearest :: "point \<Rightarrow> point list \<Rightarrow> real" where
  "nearest p [] = 0"
| "nearest p [q] = distance p q"
| "nearest p (q # qs) = min (distance p q) (nearest p qs)"

definition mean :: "real list \<Rightarrow> real" where
  "mean xs = sum_list xs / real (length xs)"

text \<open>
  Modelled from the spec: the class \<^verbatim>\<open>ChamferDistanceL1\<close> of the module
  \<^verbatim>\<open>metrics.chamfer_dist\<close>, which \<^verbatim>\<open>overfit.py\<close> imports and which is not among the
  source files. The glossary calls the Chamfer distance ``a symmetric nearest-neighbor
  distance metric between two point sets'': each point of either cloud is sent to its
  nearest neighbour in the other cloud, the distances are averaged per cloud, and the two
  averages are averaged. An empty cloud has no nearest neighbour and is an error.
\<close>

definition ChamferDistanceL1 :: "point list \<Rightarrow> point list \<Rightarrow> py_error + real" where
  "ChamferDistanceL1 xyz1 xyz2 =
     (if xyz1 = [] \<or> xyz2 = [] then Inl RuntimeError
      else Inr ((mean (map (\<lambda>p. nearest p xyz2) xyz1) + mean (map (\<lambda>q. nearest q xyz1) xyz2)) / 2))"

section \<open>utils/visualization_vispy.py: the multiprocessing primitives\<close>

text \<open>The two processes of the program.\<close>

datatype proc = Parent | Worker

text \<open>
  \<^verbatim>\<open>multiprocessing.Queue(maxsize)\<close>: a first-in first-out channel shared by the two
  processes. \<^verbatim>\<open>put(x)\<close> takes one of the \<open>maxsize\<close> slots of the semaphore of the queue
  and appends \<open>x\<close> to the buffer of the calling process; the feeder thread of that process
  then writes the buffered items, oldest first, to the pipe that the processes share.
  \<^verbatim>\<open>get()\<close> reads the oldest item from the pipe and frees a slot. \<^verbatim>\<open>empty()\<close> polls the
  pipe: it still answers \<^verbatim>\<open>True\<close> for an item that has been put and not yet written to
  the pipe. A \<open>maxsize\<close> of zero means no bound.

  \<open>queued\<close> lists the items that hold a slot: those in the pipe, then those still in the
  buffers. \<open>queue_put p\<close> is \<^verbatim>\<open>put(x)\<close> called in process \<open>p\<close>, which waits while no slot
  is free (\<open>None\<close>: the caller is held in the call); \<open>queue_put_nowait p\<close> is
  \<^verbatim>\<open>put(x, block=False)\<close>, which raises \<^verbatim>\<open>queue.Full\<close> instead; \<open>queue_feed p\<close> is one
  write of the feeder thread of process \<open>p\<close> (\<open>None\<close>: its buffer is empty and the thread
  waits); \<open>queue_get\<close> is \<^verbatim>\<open>get()\<close>, which waits while the pipe is empty.
\<close>

record 'a py_queue =
  maxsize :: nat
  buffer :: "proc \<Rightarrow> 'a list"
  pipe :: "'a list"

definition Queue :: "nat \<Rightarrow> 'a py_queue" where
  "Queue n = \<lparr>maxsize = n, buffer = (\<lambda>p. []), pipe = []\<rparr>"

definition queued :: "'a py_queue \<Rightarrow> 'a list" where
  "queued q = pipe q @ buffer q Parent @ buffer q Worker"

definition queue_empty :: "'a py_queue \<Rightarrow> bool" where
  "queue_empty q = (pipe q = [])"

definition queue_full :: "'a py_queue \<Rightarrow> bool" where
  "queue_full q = (0 < maxsize q \<and> maxsize q \<le> length (queued q))"

definition queue_put :: "proc \<Rightarrow> 'a \<Rightarrow> 'a py_queue \<Rightarrow> 'a py_queue option" where
  "queue_put p x q =
     (if queue_full q then None else Some (q\<lparr>buffer := (buffer q)(p := buffer q p @ [x])\<rparr>))"

definition queue_put_nowait :: "proc \<Rightarrow> 'a \<Rightarrow> 'a py_queue \<Rightarrow> py_error + 'a py_queue" where
  "queue_put_nowait p x q =
     (if queue_full q then Inl Full else Inr (q\<lparr>buffer := (buffer q)(p := buffer q p @ [x])\<rparr>))"

definition queue_feed :: "proc \<Rightarrow> 'a py_queue \<Rightarrow> 'a py_queue option" where
  "queue_feed p q =
     (case buffer q p of
        [] \<Rightarrow> None
      | x # xs \<Rightarrow> Some (q\<lparr>buffer := (buffer q)(p := xs), pipe := pipe q @ [x]\<rparr>))"

definition queue_get :: "'a py_queue \<Rightarrow> ('a \<times> 'a py_queue) option" where
  "queue_get q = (case pipe q of [] \<Rightarrow> None | x # xs \<Rightarrow> Some (x, q\<lparr>pipe := xs\<rparr>))"

text \<open>
  \<^verbatim>\<open>multiprocessing.Barrier(parties)\<close>. \<open>barrier_wait p\<close> is the arrival of process \<open>p\<close>
  in \<^verbatim>\<open>wait()\<close>: the process joins those waiting, and when \<open>parties\<close> processes have
  arrived all of them are released and the barrier starts its next generation. A process
  that has called \<^verbatim>\<open>wait()\<close> stays in the call for as long as it is listed in
  \<open>waiting\<close>.
\<close>

record py_barrier =
  parties :: nat
  waiting :: "proc list"
  generation :: nat

definition Barrier :: "nat \<Rightarrow> py_barrier" where
  "Barrier n = \<lparr>parties = n, waiting = [], generation = 0\<rparr>"

definition barrier_wait :: "proc \<Rightarrow> py_barrier \<Rightarrow> py_barrier" where
  "barrier_wait p b =
     (if parties b \<le> length (waiting b) + 1
      then b\<lparr>waiting := [], generation := generation b + 1\<rparr>
      else b\<lparr>waiting := waiting b @ [p]\<rparr>)"

section \<open>Tensors, dictionaries and the memory they live in\<close>

text \<open>
  A snapshot handed to the visualizer is a dictionary whose values are tensors. Both are
  mutable objects, so they are kept in a store and named by their addresses: the caller of
  \<^verbatim>\<open>update\<close> goes on to own (and may overwrite) the objects it passed. The tensors the
  visualizer reads are an \<open>N \<times> 3\<close> array of coordinates, an \<open>N \<times> 1\<close> column of
  predictions (given by its \<open>N\<close> entries) and \<open>N\<close> boolean labels.
\<close>

type_synonym addr = nat

type_synonym colour = "nat \<times> nat \<times> nat"

datatype tensor = Points "point list" | Floats "real list" | Bools "bool list"

type_synonym dict = "(string \<times> addr) list"

text \<open>
  \<^verbatim>\<open>copy.deepcopy\<close> of a dictionary of tensors. Every tensor is cloned into a new object;
  the memo maps the tensors that were already cloned to their clones, so that a tensor
  stored under two keys is cloned once. The keys are strings and are kept.
\<close>

fun copy_entries ::
  "dict \<Rightarrow> (addr \<times> addr) list \<Rightarrow> tensor list \<Rightarrow> dict \<times> (addr \<times> addr) list \<times> tensor list" where
  "copy_entries [] memo ts = ([], memo, ts)"
| "copy_entries ((k, a) # kvs) memo ts =
     (case map_of memo a of
        Some a' \<Rightarrow>
          (case copy_entries kvs memo ts of (kvs', memo', ts') \<Rightarrow> ((k, a') # kvs', memo', ts'))
      | None \<Rightarrow>
          (case copy_entries kvs ((a, length ts) # memo) (ts @ [ts ! a]) of
             (kvs', memo', ts') \<Rightarrow> ((k, length ts) # kvs', memo', ts')))"

section \<open>The visualizer\<close>

text \<open>
  Where the two processes stand. The parent is outside \<^verbatim>\<open>update\<close> (\<open>PIdle\<close>) or inside
  \<^verbatim>\<open>update(data)\<close>: about to call \<^verbatim>\<open>barrier.wait()\<close> on line 132 (\<open>PArrive data\<close>),
  in that call (\<open>PBarrier data\<close>), before the test of line 134 (\<open>PTest data\<close>), or in
  \<^verbatim>\<open>queue_in.put(c)\<close> on line 135 with the deep copy \<open>c\<close> already made (\<open>PPut c\<close>).
  The worker has not been started (\<open>WNone\<close>), has entered \<^verbatim>\<open>run\<close> (\<open>WStart\<close>), is in
  \<^verbatim>\<open>barrier.wait()\<close> on line 33 (\<open>WBarrier\<close>), is in \<^verbatim>\<open>app.run()\<close> on line 34
  (\<open>WLoop\<close>), or has returned from \<^verbatim>\<open>run\<close> (\<open>WDone\<close>).
\<close>

datatype ppc = PIdle | PArrive addr | PBarrier addr | PTest addr | PPut addr

datatype wpc = WNone | WStart | WBarrier | WLoop | WDone

text \<open>
  The state of the program. The attributes of the \<^verbatim>\<open>Visualizer\<close> object come first, as
  \<^verbatim>\<open>__init__\<close> and \<^verbatim>\<open>build_gui\<close> set them. \<^verbatim>\<open>Process.start\<close> gives the worker its
  own copy of the object; each plain attribute is read and written by one process only
  (\<open>setup_f\<close> by the parent in \<^verbatim>\<open>update\<close>, all others by the worker in its callbacks),
  so one field per attribute is enough. The queue and the barrier are the two objects that
  both processes share. \<open>scatter\<close> lists the calls of \<^verbatim>\<open>scatter.set_data\<close> (positions and
  colours), oldest first. The vispy application is module state and so exists once per
  process: \<open>app_running p\<close> says whether process \<open>p\<close> is inside its event loop.
\<close>

record visualizer =
  setup_f :: bool
  barrier :: py_barrier
  queue_in :: "addr py_queue"
  color_f :: bool
  gt_f :: bool
  ref_f :: bool
  last_data :: "addr option"
  gui_built :: bool
  scatter :: "(point list \<times> colour list) list"
  cube_width :: nat
  ref_width :: nat
  app_running :: "proc \<Rightarrow> bool"
  parent_at :: ppc
  worker_at :: wpc
  tensors :: "tensor list"
  dicts :: "dict list"

text \<open>\<^verbatim>\<open>Visualizer()\<close> (lines 17-29), in a program whose memory holds the given objects.\<close>

definition init :: "tensor list \<Rightarrow> dict list \<Rightarrow> visualizer" where
  "init ts ds =
     \<lparr>setup_f = False, barrier = Barrier 2, queue_in = Queue 1,
      color_f = True, gt_f = True, ref_f = True, last_data = None,
      gui_built = False, scatter = [], cube_width = 0, ref_width = 0,
      app_running = (\<lambda>p. False), parent_at = PIdle, worker_at = WNone,
      tensors = ts, dicts = ds\<rparr>"

text \<open>\<^verbatim>\<open>copy.deepcopy(data)\<close>: the address of the copy and the memory that holds it.\<close>

definition deepcopy :: "addr \<Rightarrow> visualizer \<Rightarrow> addr \<times> visualizer" where
  "deepcopy data s =
     (case copy_entries (dicts s ! data) [] (tensors s) of
        (d', memo, ts') \<Rightarrow> (length (dicts s), s\<lparr>tensors := ts', dicts := dicts s @ [d']\<rparr>))"

text \<open>The dictionary at an address with its tensors read out: what a reader of it sees.\<close>

definition contents :: "visualizer \<Rightarrow> addr \<Rightarrow> (string \<times> tensor) list" where
  "contents s d = map (\<lambda>(k, a). (k, tensors s ! a)) (dicts s ! d)"

text \<open>\<^verbatim>\<open>data[key]\<close>.\<close>

definition getitem :: "visualizer \<Rightarrow> addr \<Rightarrow> string \<Rightarrow> py_error + tensor" where
  "getitem s data key =
     (case map_of (dicts s ! data) key of None \<Rightarrow> Inl KeyError | Some a \<Rightarrow> Inr (tensors s ! a))"

subsection \<open>The worker: \<^verbatim>\<open>run\<close>, \<^verbatim>\<open>build_gui\<close>, \<^verbatim>\<open>dispatch\<close>, \<^verbatim>\<open>on_timer\<close>\<close>

text \<open>
  \<^verbatim>\<open>build_gui\<close> (lines 36-64): the timer is connected to \<^verbatim>\<open>on_timer\<close>, the key events of
  the canvas to \<^verbatim>\<open>dispatch\<close>, and the three visuals are created.
\<close>

definition build_gui :: "visualizer \<Rightarrow> visualizer" where
  "build_gui s = s\<lparr>gui_built := True, scatter := [], cube_width := 10, ref_width := 10\<rparr>"

text \<open>
  \<^verbatim>\<open>run\<close> (lines 31-34) in two parts: up to the arrival at the barrier, and, once released,
  the entry into the event loop.
\<close>

definition run_build :: "visualizer \<Rightarrow> visualizer" where
  "run_build s =
     (let s1 = build_gui s
      in s1\<lparr>barrier := barrier_wait Worker (barrier s1), worker_at := WBarrier\<rparr>)"

definition run_loop :: "visualizer \<Rightarrow> visualizer" where
  "run_loop s = s\<lparr>app_running := (app_running s)(Worker := True), worker_at := WLoop\<rparr>"

text \<open>\<^verbatim>\<open>dispatch\<close> (lines 66-87) for an event whose \<^verbatim>\<open>text\<close> is \<open>key\<close>.\<close>

definition requeue :: "visualizer \<Rightarrow> visualizer" where
  "requeue s =
     (case last_data s of
        None \<Rightarrow> s
      | Some d \<Rightarrow>
          (case queue_put_nowait Worker d (queue_in s) of
             Inl e \<Rightarrow> s
           | Inr q \<Rightarrow> s\<lparr>queue_in := q\<rparr>))"

definition dispatch :: "string \<Rightarrow> visualizer \<Rightarrow> visualizer" where
  "dispatch key s =
     (if key = ''c'' then requeue (s\<lparr>color_f := \<not> color_f s\<rparr>)
      else if key = ''g'' then requeue (s\<lparr>gt_f := \<not> gt_f s\<rparr>)
      else if key = ''r'' then
        (let s1 = s\<lparr>ref_f := \<not> ref_f s\<rparr>
         in if ref_f s1 then s1\<lparr>cube_width := 10, ref_width := 10\<rparr>
            else s1\<lparr>cube_width := 0, ref_width := 0\<rparr>)
      else s)"

text \<open>\<^verbatim>\<open>torch.sigmoid\<close>, and the mask \<^verbatim>\<open>torch.sigmoid(predictions.squeeze(-1)) > 0.7\<close>.\<close>

definition sigmoid :: "real \<Rightarrow> real" where
  "sigmoid x = 1 / (1 + exp (- x))"

definition is_positive :: "real \<Rightarrow> bool" where
  "is_positive x = (sigmoid x > 7 / 10)"

definition positive_mask :: "real list \<Rightarrow> bool list" where
  "positive_mask predictions = map is_positive predictions"

text \<open>
  \<^verbatim>\<open>t[mask]\<close> for a boolean mask: the rows where the mask holds; the mask must be as long
  as the tensor.
\<close>

definition index_mask :: "'a list \<Rightarrow> bool list \<Rightarrow> py_error + 'a list" where
  "index_mask xs idxs =
     (if length idxs = length xs then Inr (map fst (filter snd (zip xs idxs)))
      else Inl IndexError)"

text \<open>\<^verbatim>\<open>a & b\<close> on boolean tensors, with broadcasting of a tensor of length one.\<close>

definition and_tensors :: "bool list \<Rightarrow> bool list \<Rightarrow> py_error + bool list" where
  "and_tensors xs ys =
     (if length xs = length ys then Inr (map (\<lambda>(x, y). x \<and> y) (zip xs ys))
      else if length xs = 1 then Inr (map (\<lambda>y. hd xs \<and> y) ys)
      else if length ys = 1 then Inr (map (\<lambda>x. x \<and> hd ys) xs)
      else Inl RuntimeError)"

text \<open>
  Lines 97-107: the points predicted positive, and (when \<^verbatim>\<open>gt_f\<close> is set) the false
  negatives; \<^verbatim>\<open>pc\<close> is the first list followed by the second.
\<close>

definition select_points ::
  "bool \<Rightarrow> point list \<Rightarrow> real list \<Rightarrow> bool list \<Rightarrow> py_error + (point list \<times> point list)" where
  "select_points gt pts predictions labels =
     (let positive_idxs = positive_mask predictions
      in case and_tensors labels (map Not positive_idxs) of
           Inl e \<Rightarrow> Inl e
         | Inr false_negative_idxs \<Rightarrow>
             (case index_mask pts positive_idxs of
                Inl e \<Rightarrow> Inl e
              | Inr positive \<Rightarrow>
                  if gt then
                    (case index_mask pts false_negative_idxs of
                       Inl e \<Rightarrow> Inl e
                     | Inr false_negative \<Rightarrow> Inr (positive, false_negative))
                  else Inr (positive, [])))"

text \<open>
  Lines 110-121: green for a true positive and red for a false positive, or blue for every
  positive when \<^verbatim>\<open>color_f\<close> is off; yellow for the false negatives.
\<close>

definition point_colours ::
  "bool \<Rightarrow> bool \<Rightarrow> real list \<Rightarrow> bool list \<Rightarrow> nat \<Rightarrow> nat \<Rightarrow> py_error + colour list" where
  "point_colours col gt predictions labels n_positive n_false_negative =
     (case (if col
            then (case index_mask labels (positive_mask predictions) of
                    Inl e \<Rightarrow> Inl e
                  | Inr ls \<Rightarrow> Inr (map (\<lambda>l. if l then (0, 1, 0) else (1, 0, 0)) ls))
            else Inr (replicate n_positive (0, 0, 1))) of
        Inl e \<Rightarrow> Inl e
      | Inr p_colors \<Rightarrow>
          Inr (if gt then p_colors @ replicate n_false_negative (1, 1, 0) else p_colors))"

text \<open>
  Lines 97-124 for the three tensors of a snapshot: \<open>None\<close> when \<^verbatim>\<open>pc\<close> is empty and nothing
  is drawn, otherwise the positions (with the second coordinate negated) and the colours
  passed to \<^verbatim>\<open>scatter.set_data\<close>.
\<close>

fun render ::
  "bool \<Rightarrow> bool \<Rightarrow> tensor \<Rightarrow> tensor \<Rightarrow> tensor \<Rightarrow> py_error + (point list \<times> colour list) option" where
  "render col gt (Points pts) (Floats predictions) (Bools labels) =
     (case select_points gt pts predictions labels of
        Inl e \<Rightarrow> Inl e
      | Inr (positive, false_negative) \<Rightarrow>
          (let pc = positive @ false_negative
           in if pc = [] then Inr None
              else (case point_colours col gt predictions labels
                           (length positive) (length false_negative) of
                      Inl e \<Rightarrow> Inl e
                    | Inr colors \<Rightarrow> Inr (Some (map (\<lambda>(x, y, z). (x, - y, z)) pc, colors)))))"
| "render col gt points predictions labels = Inl TypeError"

text \<open>Lines 95-124: the part of \<^verbatim>\<open>on_timer\<close> after the snapshot has been taken.\<close>

definition redraw :: "addr \<Rightarrow> visualizer \<Rightarrow> visualizer outcome" where
  "redraw data s =
     (case getitem s data ''points'' of
        Inl e \<Rightarrow> Raises e s
      | Inr points \<Rightarrow>
          (case getitem s data ''predictions'' of
             Inl e \<Rightarrow> Raises e s
           | Inr predictions \<Rightarrow>
               (case getitem s data ''labels'' of
                  Inl e \<Rightarrow> Raises e s
                | Inr labels \<Rightarrow>
                    (case render (color_f s) (gt_f s) points predictions labels of
                       Inl e \<Rightarrow> Raises e s
                     | Inr None \<Rightarrow> Returns s
                     | Inr (Some drawn) \<Rightarrow> Returns (s\<lparr>scatter := scatter s @ [drawn]\<rparr>)))))"

text \<open>\<^verbatim>\<open>on_timer\<close> (lines 89-124).\<close>

definition on_timer :: "visualizer \<Rightarrow> visualizer outcome" where
  "on_timer s =
     (if \<not> queue_empty (queue_in s) then
        (case queue_get (queue_in s) of
           None \<Rightarrow> Blocks s
         | Some (data, q) \<Rightarrow> redraw data (s\<lparr>queue_in := q, last_data := Some data\<rparr>))
      else Returns s)"

subsection \<open>The parent: \<^verbatim>\<open>update\<close> and \<^verbatim>\<open>stop\<close>\<close>

text \<open>
  \<^verbatim>\<open>Process.start\<close>: the worker process begins \<^verbatim>\<open>run\<close>. Starting a process a second
  time fails an assertion of the library.
\<close>

definition start :: "visualizer \<Rightarrow> py_error + visualizer" where
  "start s = (if worker_at s = WNone then Inr (s\<lparr>worker_at := WStart\<rparr>) else Inl AssertionError)"

text \<open>
  \<^verbatim>\<open>update\<close> statement by statement: lines 130-131; the arrival at the barrier on line
  132; the test of line 134; and the call of \<^verbatim>\<open>put\<close> on line 135 for the copy \<open>c\<close>.
\<close>

definition update_setup :: "visualizer \<Rightarrow> visualizer outcome" where
  "update_setup s =
     (let s1 = s\<lparr>setup_f := True\<rparr>
      in case start s1 of Inl e \<Rightarrow> Raises e s1 | Inr s2 \<Rightarrow> Returns s2)"

definition update_wait :: "visualizer \<Rightarrow> visualizer" where
  "update_wait s = s\<lparr>barrier := barrier_wait Parent (barrier s)\<rparr>"

definition update_test :: "visualizer \<Rightarrow> bool" where
  "update_test s = queue_empty (queue_in s)"

definition update_put :: "addr \<Rightarrow> visualizer \<Rightarrow> visualizer outcome" where
  "update_put c s =
     (case queue_put Parent c (queue_in s) of None \<Rightarrow> Blocks s | Some q \<Rightarrow> Returns (s\<lparr>queue_in := q\<rparr>))"

text \<open>
  Lines 134-135, and \<^verbatim>\<open>update\<close> (lines 128-135) as a whole, for a call during which no
  other thread takes a step: neither the worker nor a feeder thread. The call is held at
  the barrier for as long as the parent is among those waiting there, and in \<^verbatim>\<open>put\<close> for
  as long as no slot of the queue is free.
\<close>

definition update_enqueue :: "addr \<Rightarrow> visualizer \<Rightarrow> visualizer outcome" where
  "update_enqueue data s =
     (if update_test s
      then (case deepcopy data s of (c, s1) \<Rightarrow> update_put c s1)
      else Returns s)"

definition update_startup :: "visualizer \<Rightarrow> visualizer outcome" where
  "update_startup s =
     (case update_setup s of
        Returns s1 \<Rightarrow>
          (let s2 = update_wait s1
           in if Parent \<in> set (waiting (barrier s2)) then Blocks s2 else Returns s2)
      | Raises e s1 \<Rightarrow> Raises e s1
      | Blocks s1 \<Rightarrow> Blocks s1)"

definition update :: "addr \<Rightarrow> visualizer \<Rightarrow> visualizer outcome" where
  "update data s =
     (case (if \<not> setup_f s then update_startup s else Returns s) of
        Returns s1 \<Rightarrow> update_enqueue data s1
      | Raises e s1 \<Rightarrow> Raises e s1
      | Blocks s1 \<Rightarrow> Blocks s1)"

text \<open>
  \<^verbatim>\<open>stop\<close> (lines 137-138), called in process \<open>p\<close>: \<^verbatim>\<open>app.quit()\<close> ends the event loop of
  the application of the process that calls it.
\<close>

definition stop :: "proc \<Rightarrow> visualizer \<Rightarrow> visualizer" where
  "stop p s = s\<lparr>app_running := (app_running s)(p := False)\<rparr>"

subsection \<open>The two processes together\<close>

text \<open>
  The atomic steps of the program. The parent calls \<^verbatim>\<open>update\<close> or \<^verbatim>\<open>stop\<close> when it is
  outside \<^verbatim>\<open>update\<close>, and moves on inside \<^verbatim>\<open>update\<close> (\<open>Parent_step\<close>); the worker moves
  on inside \<^verbatim>\<open>run\<close> (\<open>Worker_step\<close>), and while its event loop runs the timer ticks and
  keys are pressed; the feeder thread that the queue runs in each process writes one
  buffered item to the pipe (\<open>Feeder_step\<close>). \<open>None\<close> means that the step cannot be taken
  in the state: the process is elsewhere, or it is held in a blocking call. An exception that escapes
  \<^verbatim>\<open>update\<close> returns control to the caller; one that escapes a callback is reported
  by the event loop, which goes on.
\<close>

datatype event =
    Call_update addr | Call_stop | Parent_step | Worker_step | Timer_tick | Key_press string
  | Feeder_step proc

definition settle :: "visualizer outcome \<Rightarrow> visualizer option" where
  "settle r = (case r of Returns s \<Rightarrow> Some s | Raises e s \<Rightarrow> Some s | Blocks s \<Rightarrow> None)"

definition parent_step :: "visualizer \<Rightarrow> visualizer option" where
  "parent_step s =
     (case parent_at s of
        PIdle \<Rightarrow> None
      | PArrive data \<Rightarrow> Some ((update_wait s)\<lparr>parent_at := PBarrier data\<rparr>)
      | PBarrier data \<Rightarrow>
          if Parent \<in> set (waiting (barrier s)) then None else Some (s\<lparr>parent_at := PTest data\<rparr>)
      | PTest data \<Rightarrow>
          if update_test s
          then (case deepcopy data s of (c, s1) \<Rightarrow> Some (s1\<lparr>parent_at := PPut c\<rparr>))
          else Some (s\<lparr>parent_at := PIdle\<rparr>)
      | PPut c \<Rightarrow>
          (case update_put c s of
             Returns s1 \<Rightarrow> Some (s1\<lparr>parent_at := PIdle\<rparr>)
           | Raises e s1 \<Rightarrow> Some (s1\<lparr>parent_at := PIdle\<rparr>)
           | Blocks s1 \<Rightarrow> None))"

definition worker_step :: "visualizer \<Rightarrow> visualizer option" where
  "worker_step s =
     (case worker_at s of
        WNone \<Rightarrow> None
      | WStart \<Rightarrow> Some (run_build s)
      | WBarrier \<Rightarrow> if Worker \<in> set (waiting (barrier s)) then None else Some (run_loop s)
      | WLoop \<Rightarrow> if app_running s Worker then None else Some (s\<lparr>worker_at := WDone\<rparr>)
      | WDone \<Rightarrow> None)"

definition in_loop :: "visualizer \<Rightarrow> bool" where
  "in_loop s = (worker_at s = WLoop \<and> app_running s Worker)"

fun step :: "event \<Rightarrow> visualizer \<Rightarrow> visualizer option" where
  "step (Call_update data) s =
     (if parent_at s = PIdle then
        (if \<not> setup_f s then
           (case update_setup s of
              Returns s1 \<Rightarrow> Some (s1\<lparr>parent_at := PArrive data\<rparr>)
            | Raises e s1 \<Rightarrow> Some s1
            | Blocks s1 \<Rightarrow> None)
         else Some (s\<lparr>parent_at := PTest data\<rparr>))
      else None)"
| "step Call_stop s = (if parent_at s = PIdle then Some (stop Parent s) else None)"
| "step Parent_step s = parent_step s"
| "step Worker_step s = worker_step s"
| "step Timer_tick s = (if in_loop s then settle (on_timer s) else None)"
| "step (Key_press key) s = (if in_loop s then Some (dispatch key s) else None)"
| "step (Feeder_step p) s =
     (case queue_feed p (queue_in s) of None \<Rightarrow> None | Some q \<Rightarrow> Some (s\<lparr>queue_in := q\<rparr>))"

text \<open>The steps of a list taken in order, as far as each can be taken.\<close>

fun execute :: "event list \<Rightarrow> visualizer \<Rightarrow> visualizer option" where
  "execute [] s = Some s"
| "execute (e # es) s = (case step e s of None \<Rightarrow> None | Some s1 \<Rightarrow> execute es s1)"

text \<open>
  What the caller of \<^verbatim>\<open>update\<close> can do afterwards to the objects it holds: overwrite a
  tensor in place, or store another tensor under a key of a dictionary.
\<close>

datatype mutation = Write_tensor addr tensor | Set_item addr string addr

fun set_key :: "string \<Rightarrow> addr \<Rightarrow> dict \<Rightarrow> dict" where
  "set_key k a [] = [(k, a)]"
| "set_key k a ((k', a') # kvs) = (if k' = k then (k, a) # kvs else (k', a') # set_key k a kvs)"

fun mutate :: "mutation \<Rightarrow> visualizer \<Rightarrow> visualizer" where
  "mutate (Write_tensor a t) s = s\<lparr>tensors := (tensors s)[a := t]\<rparr>"
| "mutate (Set_item d k a) s = s\<lparr>dicts := (dicts s)[d := set_key k a (dicts s ! d)]\<rparr>"

text \<open>The objects a mutation writes to lie among the first \<open>nt\<close> tensors and \<open>nd\<close> dictionaries.\<close>

fun writes_below :: "nat \<Rightarrow> nat \<Rightarrow> mutation \<Rightarrow> bool" where
  "writes_below nt nd (Write_tensor a t) = (a < nt)"
| "writes_below nt nd (Set_item d k a) = (d < nd)"

text \<open>Every reference of the dictionary at \<open>data\<close> points to a tensor in memory.\<close>

definition valid_data :: "visualizer \<Rightarrow> addr \<Rightarrow> bool" where
  "valid_data s data =
     (data < length (dicts s) \<and> list_all (\<lambda>(k, a). a < length (tensors s)) (dicts s ! data))"

text \<open>
  The program together with its caller. Between two calls of \<^verbatim>\<open>update\<close> (the parent is
  outside \<^verbatim>\<open>update\<close>) the caller may write to the objects it holds, which lie among the
  first \<open>nt\<close> tensors and \<open>nd\<close> dictionaries; the copies that \<^verbatim>\<open>update\<close> makes are not
  among them, since \<^verbatim>\<open>update\<close> returns nothing and stores no reference to them in the
  parent.
\<close>

datatype action = Program event | Caller mutation

fun act :: "nat \<Rightarrow> nat \<Rightarrow> action \<Rightarrow> visualizer \<Rightarrow> visualizer option" where
  "act nt nd (Program e) s = step e s"
| "act nt nd (Caller m) s =
     (if parent_at s = PIdle \<and> writes_below nt nd m then Some (mutate m s) else None)"

fun perform :: "nat \<Rightarrow> nat \<Rightarrow> action list \<Rightarrow> visualizer \<Rightarrow> visualizer option" where
  "perform nt nd [] s = Some s"
| "perform nt nd (a # as) s =
     (case act nt nd a s of None \<Rightarrow> None | Some s1 \<Rightarrow> perform nt nd as s1)"

section \<open>Notions used to state the properties of the visualizer\<close>

text \<open>The state an outcome carries.\<close>

fun state_of :: "'a outcome \<Rightarrow> 'a" where
  "state_of (Returns s) = s"
| "state_of (Raises e s) = s"
| "state_of (Blocks s) = s"

text \<open>
  The queue is the one \<^verbatim>\<open>__init__\<close> made, and holds no more than its capacity, the items
  still in the buffers counted.
\<close>

definition queue_bounded :: "visualizer \<Rightarrow> bool" where
  "queue_bounded s = (maxsize (queue_in s) = 1 \<and> length (queued (queue_in s)) \<le> 1)"


text \<open>The parent is about to arrive at the barrier; the parent is waiting at the barrier.\<close>

fun arriving :: "ppc \<Rightarrow> bool" where
  "arriving (PArrive d) = True"
| "arriving p = False"

fun at_barrier :: "ppc \<Rightarrow> bool" where
  "at_barrier (PBarrier d) = True"
| "at_barrier p = False"

text \<open>
  The five situations the start-up protocol can be in: nothing started; the worker started
  and neither process at the barrier; the worker alone at the barrier, with the interface
  built; the parent alone at the barrier; both past the barrier.
\<close>

definition startup_inv :: "visualizer \<Rightarrow> bool" where
  "startup_inv s =
     (parties (barrier s) = 2 \<and>
      ((\<not> setup_f s \<and> parent_at s = PIdle \<and> worker_at s = WNone
          \<and> waiting (barrier s) = [] \<and> generation (barrier s) = 0)
       \<or> (setup_f s \<and> arriving (parent_at s) \<and> worker_at s = WStart
          \<and> waiting (barrier s) = [] \<and> generation (barrier s) = 0)
       \<or> (setup_f s \<and> arriving (parent_at s) \<and> worker_at s = WBarrier \<and> gui_built s
          \<and> waiting (barrier s) = [Worker] \<and> generation (barrier s) = 0)
       \<or> (setup_f s \<and> at_barrier (parent_at s) \<and> worker_at s = WStart
          \<and> waiting (barrier s) = [Parent] \<and> generation (barrier s) = 0)
       \<or> (setup_f s \<and> \<not> arriving (parent_at s)
          \<and> (worker_at s = WBarrier \<or> worker_at s = WLoop \<or> worker_at s = WDone) \<and> gui_built s
          \<and> waiting (barrier s) = [] \<and> generation (barrier s) = 1)))"

text \<open>The parent is past the \<^verbatim>\<open>barrier.wait()\<close> of its first \<^verbatim>\<open>update\<close>.\<close>

definition parent_past_barrier :: "visualizer \<Rightarrow> bool" where
  "parent_past_barrier s =
     (setup_f s \<and> \<not> arriving (parent_at s) \<and> \<not> at_barrier (parent_at s))"

text \<open>The part of the state that the start-up protocol reads and writes.\<close>

definition control ::
  "visualizer \<Rightarrow> bool \<times> py_barrier \<times> ppc \<times> wpc \<times> bool" where
  "control s = (setup_f s, barrier s, parent_at s, worker_at s, gui_built s)"

text \<open>
  A small program used in the examples. Its memory holds two snapshots of the same two
  points. In the first, the second point is predicted positive and labelled positive; in
  the second, no point is predicted positive and none is labelled positive, so that there
  is nothing to draw.
\<close>

definition demo :: visualizer where
  "demo = init [Points [(0, 0, 0), (1, 2, 3)], Floats [0, 2], Bools [False, True],
                Floats [0, 0], Bools [False, False]]
               [[(''points'', 0), (''predictions'', 1), (''labels'', 2)],
                [(''points'', 0), (''predictions'', 3), (''labels'', 4)]]"

text \<open>
  The first call \<^verbatim>\<open>update(data)\<close> from start to end, with the worker starting up in
  between: the call, the worker's \<^verbatim>\<open>build_gui\<close> and arrival at the barrier, the parent's
  arrival and release, the test, the \<^verbatim>\<open>put\<close>, and the worker's entry into its event loop.
\<close>

definition first_update :: "addr \<Rightarrow> event list" where
  "first_update data =
     [Call_update data, Worker_step, Parent_step, Parent_step, Parent_step, Parent_step,
      Worker_step]"

text \<open>
  The example program when that first call has returned and the feeder thread of the
  parent has written the snapshot to the pipe.
\<close>

definition demo_running :: visualizer where
  "demo_running =
     \<lparr>setup_f = True, barrier = \<lparr>parties = 2, waiting = [], generation = 1\<rparr>,
      queue_in = \<lparr>maxsize = 1, buffer = (\<lambda>p. []), pipe = [2]\<rparr>,
      color_f = True, gt_f = True, ref_f = True, last_data = None,
      gui_built = True, scatter = [], cube_width = 10, ref_width = 10,
      app_running = (\<lambda>p. False)(Worker := True), parent_at = PIdle, worker_at = WLoop,
      tensors = [Points [(0, 0, 0), (1, 2, 3)], Floats [0, 2], Bools [False, True],
                 Floats [0, 0], Bools [False, False],
                 Points [(0, 0, 0), (1, 2, 3)], Floats [0, 2], Bools [False, True]],
      dicts = [[(''points'', 0), (''predictions'', 1), (''labels'', 2)],
               [(''points'', 0), (''predictions'', 3), (''labels'', 4)],
               [(''points'', 5), (''predictions'', 6), (''labels'', 7)]]\<rparr>"

text \<open>
  The example program after the next timer tick: the worker has taken the snapshot from
  the queue and drawn its one positive point.
\<close>

definition demo_idle :: visualizer where
  "demo_idle =
     demo_running\<lparr>queue_in := \<lparr>maxsize = 1, buffer = (\<lambda>p. []), pipe = []\<rparr>, last_data := Some 2,
                   scatter := [([(1, - 2, 3)], [(0, 1, 0)])]\<rparr>"

text \<open>
  What a snapshot of points \<open>pts\<close>, predictions \<open>preds\<close> and labels \<open>labs\<close> has to show:
  the points predicted positive, the points labelled positive and not predicted so, and
  the colour of each.
\<close>

definition positives :: "point list \<Rightarrow> real list \<Rightarrow> point list" where
  "positives pts preds = [p. (p, x) \<leftarrow> zip pts preds, is_positive x]"

definition false_negatives :: "point list \<Rightarrow> real list \<Rightarrow> bool list \<Rightarrow> point list" where
  "false_negatives pts preds labs = [p. (p, x, l) \<leftarrow> zip pts (zip preds labs), l \<and> \<not> is_positive x]"

definition shown_points :: "bool \<Rightarrow> point list \<Rightarrow> real list \<Rightarrow> bool list \<Rightarrow> point list" where
  "shown_points gt pts preds labs =
     positives pts preds @ (if gt then false_negatives pts preds labs else [])"

definition shown_colours :: "bool \<Rightarrow> bool \<Rightarrow> point list \<Rightarrow> real list \<Rightarrow> bool list \<Rightarrow> colour list" where
  "shown_colours col gt pts preds labs =
     (if col then [if l then (0, 1, 0) else (1, 0, 0). (x, l) \<leftarrow> zip preds labs, is_positive x]
      else replicate (length (positives pts preds)) (0, 0, 1))
     @ (if gt then replicate (length (false_negatives pts preds labs)) (1, 1, 0) else [])"

section \<open>The training loop: logging and checkpoint schedule\<close>

lemma effects_emit: "effects (emit e st) = effects st @ [e]"
  and model_emit: "model (emit e st) = model st"
  and best_emit: "best (emit e st) = best st"
  and chamfer_real_emit: "chamfer_real (emit e st) = chamfer_real st"
  by (simp_all add: emit_def)

lemma mod_5000_1000: "(n::nat) mod 5000 = 0 \<Longrightarrow> n mod 1000 = 0"
proof -
  assume "n mod 5000 = 0"
  then have "5000 dvd n" by (simp add: dvd_eq_mod_eq_0)
  moreover have "(1000::nat) dvd 5000" by simp
  ultimately have "1000 dvd n" using dvd_trans by blast
  then show ?thesis by (simp add: dvd_eq_mod_eq_0)
qed

lemma loop_append:
  "loop ext (xs @ ys) st = (case loop ext xs st of Inl e \<Rightarrow> Inl e | Inr st' \<Rightarrow> loop ext ys st')"
  by (induction xs arbitrary: st) (auto split: sum.splits)

lemma body_unfold:
  assumes ms: "model_step ext (model st) (sample_point_cloud_pc ext i) = (m, p, l)"
  shows "body ext i st =
     (let st1 = st\<lparr>model := m\<rparr>;
          st2 = (if (i + 1) mod 1000 = 0 then log_metrics ext i (sample_point_cloud_pc ext i) p l st1 else st1)
      in case (if (i + 1) mod 5000 = 0 then checkpoint ext i st2 else Inr st2) of
           Inl e \<Rightarrow> Inl e
         | Inr st3 \<Rightarrow> Inr (emit (Set_postfix l) st3))"
  unfolding body_def Let_def ms by simp

lemma not_1000_not_5000: "(n::nat) mod 1000 \<noteq> 0 \<Longrightarrow> n mod 5000 \<noteq> 0"
  by (rule notI, drule mod_5000_1000, erule notE)

lemma body_plain:
  assumes ms: "model_step ext (model st) (sample_point_cloud_pc ext i) = (m, p, l)"
    and c: "(i + 1) mod 1000 \<noteq> 0"
  shows "body ext i st = Inr (st\<lparr>model := m, effects := effects st @ [Set_postfix l]\<rparr>)"
proof -
  have c5: "(i + 1) mod 5000 \<noteq> 0" by (rule not_1000_not_5000[OF c])
  have "body ext i st = Inr (emit (Set_postfix l) (st\<lparr>model := m\<rparr>))"
    unfolding body_unfold[OF ms] Let_def by (simp only: c c5 if_False sum.case)
  then show ?thesis by (simp add: emit_def)
qed

lemma body_log:
  assumes ms: "model_step ext (model st) (sample_point_cloud_pc ext i) = (m, p, l)"
    and c: "(i + 1) mod 1000 = 0" and c5: "(i + 1) mod 5000 \<noteq> 0"
    and cv: "cv = chamfer_input ext (sample_point_cloud_pc ext i) p"
  shows "body ext i st = Inr (st\<lparr>model := m, chamfer_real := Some cv,
            effects := effects st @ [Report_scalar ''Loss'' ''loss'' l i,
               Report_scalar ''Chamfer'' ''chamfer'' (cv * 100) i, Set_postfix l]\<rparr>)"
proof -
  have "body ext i st =
      Inr (emit (Set_postfix l) (log_metrics ext i (sample_point_cloud_pc ext i) p l (st\<lparr>model := m\<rparr>)))"
    unfolding body_unfold[OF ms] Let_def by (simp only: c c5 if_False if_True sum.case simp_thms)
  then show ?thesis by (simp add: emit_def log_metrics_def cv Let_def)
qed

lemma body_ckpt:
  assumes ms: "model_step ext (model st) (sample_point_cloud_pc ext i) = (m, p, l)"
    and c5: "(i + 1) mod 5000 = 0"
    and cv: "cv = chamfer_input ext (sample_point_cloud_pc ext i) p"
  shows "body ext i st = Inr (st\<lparr>model := m, chamfer_real := Some cv,
            best := (if best_gt (best st) cv then Some cv else best st),
            effects := effects st @ [Report_scalar ''Loss'' ''loss'' l i,
               Report_scalar ''Chamfer'' ''chamfer'' (cv * 100) i,
               Report_plotly ''Point Clouds'' ''precision_recall'' i,
               Report_plotly ''Point Clouds'' ''reconstruction'' i,
               Report_scalar ''Chamfer'' ''real'' (chamfer_decoded ext m * 100) i,
               Report_plotly ''Point Clouds'' ''input points'' i,
               Torch_save ''latest.pth'' m]
              @ (if best_gt (best st) cv then [Torch_save ''best.pth'' m] else [])
              @ [Set_postfix l]\<rparr>)"
proof -
  have c: "(i + 1) mod 1000 = 0" by (rule mod_5000_1000[OF c5])
  have "body ext i st =
      (case checkpoint ext i (log_metrics ext i (sample_point_cloud_pc ext i) p l (st\<lparr>model := m\<rparr>)) of
         Inl e \<Rightarrow> Inl e | Inr st3 \<Rightarrow> Inr (emit (Set_postfix l) st3))"
    unfolding body_unfold[OF ms] Let_def by (simp only: c c5 if_False if_True sum.case simp_thms)
  then show ?thesis by (simp add: emit_def log_metrics_def checkpoint_def cv Let_def)
qed

lemma body_total: "\<exists>st'. body ext i st = Inr st'"
proof -
  obtain m p l where ms: "model_step ext (model st) (sample_point_cloud_pc ext i) = (m, p, l)"
    using prod_cases3 by blast
  show ?thesis
  proof (cases "(i + 1) mod 1000 = 0")
    case False
    from body_plain[OF ms False] show ?thesis by (rule exI)
  next
    case True
    show ?thesis
    proof (cases "(i + 1) mod 5000 = 0")
      case False
      from body_log[OF ms True False refl] show ?thesis by (rule exI)
    next
      case c5: True
      from body_ckpt[OF ms c5 refl] show ?thesis by (rule exI)
    qed
  qed
qed

lemma loop_total: "\<exists>st'. loop ext js st = Inr st'"
proof (induction js arbitrary: st)
  case Nil
  show ?case by simp
next
  case (Cons j js)
  obtain st1 where b: "body ext j st = Inr st1" using body_total by blast
  from Cons.IH[of st1] b show ?case by simp
qed

lemma main_total: "\<exists>st. main ext n m0 = Inr st"
  unfolding main_def by (rule loop_total)

lemma main_Suc:
  assumes "main ext n m0 = Inr st"
  shows "main ext (Suc n) m0 = body ext n st"
proof -
  have "main ext (Suc n) m0 =
      (case main ext n m0 of Inl e \<Rightarrow> Inl e | Inr st' \<Rightarrow> loop ext [n] st')"
    unfolding main_def by (simp add: loop_append)
  also have "\<dots> = body ext n st"
    using assms by (simp split: sum.splits)
  finally show ?thesis .
qed



lemma body_best:
  assumes m: "main ext n m0 = Inr st"
  shows "\<exists>st' evs. body ext n st = Inr st' \<and> effects st' = effects st @ evs
     \<and> best st' = (if (n + 1) mod 5000 = 0 \<and> best_gt (best st) (chamfer_at ext m0 n)
                   then Some (chamfer_at ext m0 n) else best st)
     \<and> ((\<exists>m. Torch_save ''best.pth'' m \<in> set evs) \<longleftrightarrow>
          ((n + 1) mod 5000 = 0 \<and> best_gt (best st) (chamfer_at ext m0 n)))"
proof -
  obtain m p l where ms: "model_step ext (model st) (sample_point_cloud_pc ext n) = (m, p, l)"
    using prod_cases3 by blast
  define cv where "cv = chamfer_input ext (sample_point_cloud_pc ext n) p"
  have cv: "chamfer_at ext m0 n = cv"
    by (simp add: chamfer_at_def assms ms cv_def)
  show ?thesis
  proof (cases "(n + 1) mod 5000 = 0")
    case c5: True
    define evs where "evs = [Report_scalar ''Loss'' ''loss'' l n,
               Report_scalar ''Chamfer'' ''chamfer'' (cv * 100) n,
               Report_plotly ''Point Clouds'' ''precision_recall'' n,
               Report_plotly ''Point Clouds'' ''reconstruction'' n,
               Report_scalar ''Chamfer'' ''real'' (chamfer_decoded ext m * 100) n,
               Report_plotly ''Point Clouds'' ''input points'' n,
               Torch_save ''latest.pth'' m]
              @ (if best_gt (best st) cv then [Torch_save ''best.pth'' m] else [])
              @ [Set_postfix l]"
    show ?thesis
      apply (rule exI[of _ "st\<lparr>model := m, chamfer_real := Some cv,
            best := (if best_gt (best st) cv then Some cv else best st),
            effects := effects st @ evs\<rparr>"])
      apply (rule exI[of _ evs])
      apply (simp only: body_ckpt[OF ms c5 cv_def] c5 cv evs_def)
      apply simp
      done
  next
    case c5: False
    show ?thesis
    proof (cases "(n + 1) mod 1000 = 0")
      case False
      show ?thesis
        apply (rule exI[of _ "st\<lparr>model := m, effects := effects st @ [Set_postfix l]\<rparr>"])
        apply (rule exI[of _ "[Set_postfix l]"])
        apply (simp only: body_plain[OF ms False] c5)
        apply simp
        done
    next
      case True
      show ?thesis
        apply (rule exI[of _ "st\<lparr>model := m, chamfer_real := Some cv,
            effects := effects st @ [Report_scalar ''Loss'' ''loss'' l n,
               Report_scalar ''Chamfer'' ''chamfer'' (cv * 100) n, Set_postfix l]\<rparr>"])
        apply (rule exI[of _ "[Report_scalar ''Loss'' ''loss'' l n,
               Report_scalar ''Chamfer'' ''chamfer'' (cv * 100) n, Set_postfix l]"])
        apply (simp only: body_log[OF ms True c5 cv_def] c5)
        apply simp
        done
    qed
  qed
qed

lemma checkpoint_values_Suc:
  "checkpoint_values ext m0 (Suc n) =
     checkpoint_values ext m0 n @ (if (n + 1) mod 5000 = 0 then [chamfer_at ext m0 n] else [])"
  unfolding checkpoint_values_def
  by (simp only: upt_Suc_append[OF le0] filter_append map_append filter.simps list.map if_distrib[of "map _"])

lemma best_is_min:
  "main ext n m0 = Inr st \<Longrightarrow>
   best st = (if checkpoint_values ext m0 n = [] then None
              else Some (Min (set (checkpoint_values ext m0 n))))"
proof (induction n arbitrary: st)
  case 0
  then show ?case by (auto simp add: main_def checkpoint_values_def)
next
  case (Suc n)
  obtain s where s: "main ext n m0 = Inr s" using main_total[of ext n m0] by (elim exE)
  note IH = Suc.IH[OF s]
  obtain st' where b: "body ext n s = Inr st'"
    and bb: "best st' = (if (n + 1) mod 5000 = 0 \<and> best_gt (best s) (chamfer_at ext m0 n)
                   then Some (chamfer_at ext m0 n) else best s)"
    using body_best[OF s] by blast
  have st: "st = st'" using Suc.prems main_Suc[OF s] b by simp
  let ?vs = "checkpoint_values ext m0 n"
  let ?c = "chamfer_at ext m0 n"
  show ?case
  proof (cases "(n + 1) mod 5000 = 0")
    case False
    have "checkpoint_values ext m0 (Suc n) = ?vs"
      by (simp only: checkpoint_values_Suc False if_False append_Nil2)
    moreover have "best st = best s" unfolding st bb by (simp only: False simp_thms if_False)
    ultimately show ?thesis using IH by simp
  next
    case True
    have vs: "checkpoint_values ext m0 (Suc n) = ?vs @ [?c]"
      by (simp only: checkpoint_values_Suc True if_True simp_thms)
    have bst: "best st = (if best_gt (best s) ?c then Some ?c else best s)"
      unfolding st bb by (simp only: True simp_thms)
    show ?thesis
    proof (cases "?vs = []")
      case e: True
      then have "best s = None" using IH by simp
      then show ?thesis unfolding vs bst by (simp add: e)
    next
      case ne: False
      then have bs: "best s = Some (Min (set ?vs))" using IH by simp
      have "Min (set (?vs @ [?c])) = min ?c (Min (set ?vs))"
        using ne by (simp add: Min_insert)
      then show ?thesis unfolding vs bst bs by (simp add: min_def)
    qed
  qed
qed

lemma best_gt_le: "best_le (if best_gt b c then Some c else b) b"
  by (cases b) auto




text \<open>
  Claim C8. After any number \<open>n\<close> of iterations the tracked \<open>best\<close> is the minimum of the
  chamfer values computed at the checkpoint iterations so far (infinity when there was
  none). Iteration \<open>n\<close> writes \<^verbatim>\<open>best.pth\<close> exactly when it is a checkpoint iteration
  and its chamfer value is strictly below the tracked \<open>best\<close>, and it never raises
  \<open>best\<close>.
\<close>

theorem best_checkpoint_running_minimum:
  "\<exists>st st' evs.
      main ext n m0 = Inr st
    \<and> main ext (Suc n) m0 = Inr st'
    \<and> effects st' = effects st @ evs
    \<and> best st = (if checkpoint_values ext m0 n = [] then None
                  else Some (Min (set (checkpoint_values ext m0 n))))
    \<and> ((\<exists>m. Torch_save ''best.pth'' m \<in> set evs) \<longleftrightarrow>
          ((n + 1) mod 5000 = 0 \<and> best_gt (best st) (chamfer_at ext m0 n)))
    \<and> best_le (best st') (best st)"
proof -
  obtain st where st: "main ext n m0 = Inr st"
    using main_total[of ext n m0] by (elim exE)
  from body_best[OF st] obtain st' evs where
    b: "body ext n st = Inr st'" and ef: "effects st' = effects st @ evs"
    and bb: "best st' = (if (n + 1) mod 5000 = 0 \<and> best_gt (best st) (chamfer_at ext m0 n)
                   then Some (chamfer_at ext m0 n) else best st)"
    and sv: "(\<exists>m. Torch_save ''best.pth'' m \<in> set evs) \<longleftrightarrow>
          ((n + 1) mod 5000 = 0 \<and> best_gt (best st) (chamfer_at ext m0 n))"
    by (elim exE conjE) (rule that, assumption+)
  have s: "main ext (Suc n) m0 = Inr st'"
    using main_Suc[OF st] b by simp
  have le: "best_le (best st') (best st)"
  proof (cases "(n + 1) mod 5000 = 0")
    case True
    have "best st' = (if best_gt (best st) (chamfer_at ext m0 n)
                      then Some (chamfer_at ext m0 n) else best st)"
      unfolding bb by (simp only: True simp_thms)
    then show ?thesis by (simp only: best_gt_le)
  next
    case False
    have "best st' = best st" unfolding bb by (simp only: False simp_thms if_False)
    then show ?thesis by (cases "best st") simp_all
  qed
  show ?thesis
    by (rule exI[of _ st], rule exI[of _ st'], rule exI[of _ evs])
       (intro conjI st s ef best_is_min[OF st] sv le)
qed

lemma checkpoint_values_early:
  assumes "n < 5000"
  shows "checkpoint_values ext m0 n = []"
proof -
  have "\<forall>j \<in> set [0..<n]. \<not> (j + 1) mod 5000 = 0"
  proof
    fix j assume "j \<in> set [0..<n]"
    then have "j + 1 < 5000" using assms by simp
    then have "(j + 1) mod 5000 = j + 1" by (rule mod_less)
    then show "\<not> (j + 1) mod 5000 = 0" by simp
  qed
  then have "filter (\<lambda>j. (j + 1) mod 5000 = 0) [0..<n] = []"
    by (simp only: filter_empty_conv) 
  then show ?thesis unfolding checkpoint_values_def by simp
qed

theorem best_checkpoint_running_minimum_witness:
  "\<exists>st st' evs.
      main \<lparr>sample_point_cloud_pc = (\<lambda>i. i), model_step = (\<lambda>m x. (Suc m, x, 1)),
            chamfer_input = (\<lambda>x p. 2), chamfer_decoded = (\<lambda>m. 3)\<rparr> 4999 (0::nat) = Inr st
    \<and> main \<lparr>sample_point_cloud_pc = (\<lambda>i. i), model_step = (\<lambda>m x. (Suc m, x, 1)),
            chamfer_input = (\<lambda>x p. 2), chamfer_decoded = (\<lambda>m. 3)\<rparr> (Suc 4999) (0::nat) = Inr st'
    \<and> effects st' = effects st @ evs
    \<and> best st = None
    \<and> (\<exists>m. Torch_save ''best.pth'' m \<in> set evs)
    \<and> best_le (best st') (best st)"
proof -
  let ?ext = "\<lparr>sample_point_cloud_pc = (\<lambda>i::nat. i), model_step = (\<lambda>(m::nat) (x::nat). (Suc m, x, 1::real)),
                 chamfer_input = (\<lambda>(x::nat) (p::nat). 2::real), chamfer_decoded = (\<lambda>m::nat. 3::real)\<rparr>"
  from best_checkpoint_running_minimum[of ?ext 4999 0] obtain st st' evs where
    m: "main ?ext 4999 0 = Inr st" and s: "main ?ext (Suc 4999) 0 = Inr st'"
    and ef: "effects st' = effects st @ evs"
    and bm: "best st = (if checkpoint_values ?ext 0 4999 = [] then None
                  else Some (Min (set (checkpoint_values ?ext 0 4999))))"
    and sv: "(\<exists>m. Torch_save ''best.pth'' m \<in> set evs) \<longleftrightarrow>
          (((4999::nat) + 1) mod 5000 = 0 \<and> best_gt (best st) (chamfer_at ?ext 0 4999))"
    and le: "best_le (best st') (best st)"
    by (elim exE conjE) (rule that, assumption+)
  have lt: "(4999::nat) < 5000" by simp
  have b: "best st = None" unfolding bm checkpoint_values_early[OF lt] by simp
  have z: "((4999::nat) + 1) mod 5000 = 0" by simp
  have g: "best_gt (best st) (chamfer_at ?ext 0 4999)" unfolding b by simp
  have ns: "\<exists>m. Torch_save ''best.pth'' m \<in> set evs"
    by (rule iffD2[OF sv]) (intro conjI z g)
  show ?thesis
    by (rule exI[of _ st], rule exI[of _ st'], rule exI[of _ evs])
       (intro conjI m s ef b ns le)
qed

section \<open>The Chamfer distance is symmetric\<close>

text \<open>
  Claim C9. For every pair of point clouds, the metric of the first against the second is
  the metric of the second against the first; this includes the case where it is an error.
\<close>

theorem chamfer_symmetric:
  "ChamferDistanceL1 xyz1 xyz2 = ChamferDistanceL1 xyz2 xyz1"
  unfolding ChamferDistanceL1_def by (simp add: add.commute disj_commute)

theorem chamfer_symmetric_witness:
  "ChamferDistanceL1 [(0, 0, 0), (0, 0, 2)] [(0, 0, 1)] = Inr 1
   \<and> ChamferDistanceL1 [(0, 0, 1)] [(0, 0, 0), (0, 0, 2)] = Inr 1"
proof -
  have a: "ChamferDistanceL1 [(0, 0, 0), (0, 0, 2)] [(0, 0, 1)] = Inr 1"
    by (simp add: ChamferDistanceL1_def mean_def distance_def)
  with chamfer_symmetric[of "[(0, 0, 1)]" "[(0, 0, 0), (0, 0, 2)]"] show ?thesis by simp
qed
section \<open>The visualizer: proofs\<close>

lemma redraw_frame:
  "state_of (redraw d s) = s \<or> (\<exists>drawn. state_of (redraw d s) = s\<lparr>scatter := scatter s @ [drawn]\<rparr>)"
  unfolding redraw_def by (auto split: sum.splits option.splits)

lemma redraw_queue_in: "queue_in (state_of (redraw d s)) = queue_in s"
  using redraw_frame[of d s] by auto

lemma settle_state: "settle r = Some s' \<Longrightarrow> s' = state_of r"
  unfolding settle_def by (cases r) auto

lemma on_timer_queue:
  "pipe (queue_in (state_of (on_timer s))) = tl (pipe (queue_in s))
   \<and> buffer (queue_in (state_of (on_timer s))) = buffer (queue_in s)
   \<and> maxsize (queue_in (state_of (on_timer s))) = maxsize (queue_in s)"
  unfolding on_timer_def queue_empty_def queue_get_def
  by (auto simp: redraw_queue_in split: list.splits)

lemma queued_put:
  "queued (q\<lparr>buffer := (buffer q)(p := buffer q p @ [x])\<rparr>) = [x]" if "queued q = []"
  using that by (cases p) (simp_all add: queued_def)

lemma queue_put_bounded:
  assumes "queue_put p x q = Some q'" and "maxsize q = 1"
  shows "maxsize q' = 1 \<and> queued q = [] \<and> queued q' = [x]"
proof -
  from assms have e: "queued q = []" and q': "q' = q\<lparr>buffer := (buffer q)(p := buffer q p @ [x])\<rparr>"
    by (auto simp: queue_put_def queue_full_def not_le split: if_splits)
  from queued_put[OF e] assms(2) show ?thesis unfolding q' using e by simp
qed

lemma queue_put_nowait_bounded:
  assumes "queue_put_nowait p x q = Inr q'" and "maxsize q = 1"
  shows "maxsize q' = 1 \<and> queued q = [] \<and> queued q' = [x]"
proof -
  from assms have e: "queued q = []" and q': "q' = q\<lparr>buffer := (buffer q)(p := buffer q p @ [x])\<rparr>"
    by (auto simp: queue_put_nowait_def queue_full_def not_le split: if_splits)
  from queued_put[OF e] assms(2) show ?thesis unfolding q' using e by simp
qed

lemma queue_feed_queued:
  assumes "queue_feed p q = Some q'" and "length (queued q) \<le> 1"
  shows "maxsize q' = maxsize q \<and> queued q' = queued q \<and> pipe q' = queued q \<and> queued q \<noteq> []"
proof -
  from assms(1) obtain x xs where b: "buffer q p = x # xs"
    and q': "q' = q\<lparr>buffer := (buffer q)(p := xs), pipe := pipe q @ [x]\<rparr>"
    by (auto simp: queue_feed_def split: list.splits)
  show ?thesis using assms(2) b unfolding q' by (cases p) (auto simp: queued_def)
qed

lemma requeue_bounded: "queue_bounded s \<Longrightarrow> queue_bounded (requeue s)"
  unfolding requeue_def queue_bounded_def
  by (auto split: option.splits sum.splits dest: queue_put_nowait_bounded)

lemma queue_bounded_cong:
  "queue_in s' = queue_in s \<Longrightarrow> queue_bounded s' = queue_bounded s"
  by (simp add: queue_bounded_def)

lemma dispatch_bounded: "queue_bounded s \<Longrightarrow> queue_bounded (dispatch key s)"
proof -
  assume b: "queue_bounded s"
  have c: "queue_bounded (requeue (s\<lparr>color_f := \<not> color_f s\<rparr>))"
    by (rule requeue_bounded) (use b in \<open>simp add: queue_bounded_def\<close>)
  have g: "queue_bounded (requeue (s\<lparr>gt_f := \<not> gt_f s\<rparr>))"
    by (rule requeue_bounded) (use b in \<open>simp add: queue_bounded_def\<close>)
  show ?thesis unfolding dispatch_def using b c g by (simp add: queue_bounded_def Let_def)
qed

lemma deepcopy_queue_in: "deepcopy d s = (c, s1) \<Longrightarrow> queue_in s1 = queue_in s"
  unfolding deepcopy_def by (auto split: prod.splits)

lemma update_put_bounded:
  "queue_bounded s \<Longrightarrow> update_put c s = Returns s1 \<Longrightarrow> queue_bounded s1"
  unfolding update_put_def queue_bounded_def
  by (auto split: option.splits dest: queue_put_bounded)

lemma update_put_not_raises: "update_put c s \<noteq> Raises e s1"
  unfolding update_put_def by (auto split: option.splits)

lemma update_setup_queue_in: "queue_in (state_of (update_setup s)) = queue_in s"
  unfolding update_setup_def start_def by (auto simp: Let_def)

lemma queue_bounded_parent_at: "queue_bounded (s\<lparr>parent_at := p\<rparr>) = queue_bounded s"
  by (simp add: queue_bounded_def)

lemma parent_step_bounded:
  assumes b: "queue_bounded s" and st: "parent_step s = Some s'"
  shows "queue_bounded s'"
proof (cases "parent_at s")
  case PIdle
  with st show ?thesis by (simp add: parent_step_def)
next
  case (PArrive d)
  with st have "s' = (update_wait s)\<lparr>parent_at := PBarrier d\<rparr>" by (simp add: parent_step_def)
  with b show ?thesis by (simp add: queue_bounded_def update_wait_def)
next
  case (PBarrier d)
  with st have "s' = s\<lparr>parent_at := PTest d\<rparr>"
    by (simp add: parent_step_def split: if_splits)
  with b show ?thesis by (simp add: queue_bounded_def)
next
  case (PTest d)
  obtain c s1 where dc: "deepcopy d s = (c, s1)" by (cases "deepcopy d s")
  from st PTest dc have "s' = s1\<lparr>parent_at := PPut c\<rparr> \<or> s' = s\<lparr>parent_at := PIdle\<rparr>"
    by (simp add: parent_step_def split: if_splits)
  with b deepcopy_queue_in[OF dc] show ?thesis by (auto simp: queue_bounded_def)
next
  case (PPut c)
  from st PPut obtain s1 where u: "update_put c s = Returns s1" and s': "s' = s1\<lparr>parent_at := PIdle\<rparr>"
    by (cases "update_put c s") (simp_all add: parent_step_def update_put_not_raises)
  from update_put_bounded[OF b u] s' show ?thesis by (simp add: queue_bounded_def)
qed

lemma worker_step_bounded:
  "queue_bounded s \<Longrightarrow> worker_step s = Some s' \<Longrightarrow> queue_bounded s'"
  unfolding worker_step_def run_build_def run_loop_def build_gui_def
  by (auto simp: queue_bounded_def Let_def split: wpc.splits if_splits)

lemma step_bounded:
  assumes "queue_bounded s" and "step e s = Some s'"
  shows "queue_bounded s'"
proof (cases e)
  case (Call_update d)
  have "queue_bounded (state_of (update_setup s))"
    using assms(1) by (simp add: queue_bounded_def update_setup_queue_in)
  with assms Call_update show ?thesis
    by (auto simp: queue_bounded_def split: if_splits outcome.splits)
next
  case Call_stop
  with assms show ?thesis by (auto simp: queue_bounded_def stop_def split: if_splits)
next
  case Parent_step
  with assms show ?thesis by (auto dest: parent_step_bounded)
next
  case Worker_step
  with assms show ?thesis by (auto dest: worker_step_bounded)
next
  case Timer_tick
  with assms have "s' = state_of (on_timer s)" by (auto split: if_splits dest: settle_state)
  with assms(1) on_timer_queue[of s] show ?thesis
    unfolding queue_bounded_def queued_def by (cases "pipe (queue_in s)") auto
next
  case (Key_press k)
  with assms show ?thesis by (auto split: if_splits intro: dispatch_bounded)
next
  case (Feeder_step p)
  with assms obtain q where f: "queue_feed p (queue_in s) = Some q" and s': "s' = s\<lparr>queue_in := q\<rparr>"
    by (auto split: option.splits)
  from assms(1) have "length (queued (queue_in s)) \<le> 1" by (simp add: queue_bounded_def)
  from queue_feed_queued[OF f this] assms(1) show ?thesis
    unfolding s' by (simp add: queue_bounded_def)
qed

lemma execute_bounded: "queue_bounded s \<Longrightarrow> execute es s = Some s' \<Longrightarrow> queue_bounded s'"
proof (induction es arbitrary: s)
  case Nil
  then show ?case by simp
next
  case (Cons e es)
  then show ?case by (auto split: option.splits dest: step_bounded)
qed

lemma init_bounded: "queue_bounded (init ts ds)"
  by (simp add: queue_bounded_def init_def Queue_def queued_def)

lemma startup_inv_control: "control s' = control s \<Longrightarrow> startup_inv s' = startup_inv s"
  unfolding control_def startup_inv_def by simp

lemma control_redraw: "control (state_of (redraw d s)) = control s"
  using redraw_frame[of d s] by (auto simp: control_def)

lemma control_on_timer: "control (state_of (on_timer s)) = control s"
  unfolding on_timer_def
  by (simp add: control_redraw split: option.splits prod.splits) (simp add: control_def)

lemma control_requeue: "control (requeue s) = control s"
  unfolding requeue_def by (simp add: control_def split: option.splits sum.splits)

lemma control_dispatch: "control (dispatch k s) = control s"
  unfolding dispatch_def by (simp add: control_requeue Let_def) (simp add: control_def)

lemma control_queue_in: "control (s\<lparr>queue_in := q\<rparr>) = control s"
  by (simp add: control_def)

lemma step_feeder:
  "step (Feeder_step p) s = Some s' \<Longrightarrow> \<exists>q. s' = s\<lparr>queue_in := q\<rparr>"
  by (auto split: option.splits)

lemma control_stop: "control (stop p s) = control s"
  by (simp add: stop_def control_def)

lemma control_deepcopy: "deepcopy d s = (c, s1) \<Longrightarrow> control s1 = control s"
  unfolding deepcopy_def by (auto simp: control_def split: prod.splits)

lemma control_update_put: "control (state_of (update_put c s)) = control s"
  unfolding update_put_def by (simp add: control_def split: option.splits)

lemma arriving_iff: "arriving p \<longleftrightarrow> (\<exists>d. p = PArrive d)"
  by (cases p) auto

lemma at_barrier_iff: "at_barrier p \<longleftrightarrow> (\<exists>d. p = PBarrier d)"
  by (cases p) auto

lemma startup_call_update:
  assumes i: "startup_inv s" and st: "step (Call_update d) s = Some s'"
  shows "startup_inv s'"
proof (cases "setup_f s")
  case True
  with st have s': "s' = s\<lparr>parent_at := PTest d\<rparr>" and idle: "parent_at s = PIdle"
    by (auto split: if_splits)
  from i True idle show ?thesis unfolding s' startup_inv_def by auto
next
  case False
  with i have w: "worker_at s = WNone" and p: "parent_at s = PIdle"
    and b: "waiting (barrier s) = []" "generation (barrier s) = 0" "parties (barrier s) = 2"
    unfolding startup_inv_def by auto
  have "update_setup s = Returns (s\<lparr>setup_f := True, worker_at := WStart\<rparr>)"
    using w by (simp add: update_setup_def start_def Let_def)
  with st False p have s': "s' = s\<lparr>setup_f := True, worker_at := WStart, parent_at := PArrive d\<rparr>"
    by simp
  show ?thesis unfolding s' startup_inv_def using b by simp
qed

lemma startup_parent_step:
  assumes i: "startup_inv s" and st: "parent_step s = Some s'"
  shows "startup_inv s'"
proof (cases "parent_at s")
  case PIdle
  with st show ?thesis by (simp add: parent_step_def)
next
  case (PArrive d)
  with st have s': "s' = (update_wait s)\<lparr>parent_at := PBarrier d\<rparr>" by (simp add: parent_step_def)
  from i PArrive consider
      (a) "setup_f s" "worker_at s = WStart" "waiting (barrier s) = []" "generation (barrier s) = 0"
         "parties (barrier s) = 2"
    | (b) "setup_f s" "worker_at s = WBarrier" "gui_built s" "waiting (barrier s) = [Worker]"
         "generation (barrier s) = 0" "parties (barrier s) = 2"
    unfolding startup_inv_def by auto
  then show ?thesis
  proof cases
    case a
    then show ?thesis unfolding s' startup_inv_def update_wait_def barrier_wait_def by simp
  next
    case b
    then show ?thesis unfolding s' startup_inv_def update_wait_def barrier_wait_def by simp
  qed
next
  case (PBarrier d)
  with st have s': "s' = s\<lparr>parent_at := PTest d\<rparr>" and nw: "Parent \<notin> set (waiting (barrier s))"
    by (auto simp: parent_step_def split: if_splits)
  from i PBarrier nw have "setup_f s \<and> (worker_at s = WBarrier \<or> worker_at s = WLoop \<or> worker_at s = WDone)
      \<and> gui_built s \<and> waiting (barrier s) = [] \<and> generation (barrier s) = 1 \<and> parties (barrier s) = 2"
    unfolding startup_inv_def by auto
  then show ?thesis unfolding s' startup_inv_def by simp
next
  case (PTest d)
  obtain c s1 where dc: "deepcopy d s = (c, s1)" by (cases "deepcopy d s")
  from st PTest dc consider "s' = s1\<lparr>parent_at := PPut c\<rparr>" | "s' = s\<lparr>parent_at := PIdle\<rparr>"
    by (auto simp: parent_step_def split: if_splits)
  then show ?thesis
  proof cases
    case 1
    have c1: "control s1 = control s" by (rule control_deepcopy[OF dc])
    from i PTest c1 show ?thesis unfolding 1 startup_inv_def control_def by auto
  next
    case 2
    from i PTest show ?thesis unfolding 2 startup_inv_def by auto
  qed
next
  case (PPut c)
  from st PPut obtain s1 where u: "update_put c s = Returns s1" and s': "s' = s1\<lparr>parent_at := PIdle\<rparr>"
    by (cases "update_put c s") (simp_all add: parent_step_def update_put_not_raises)
  have c1: "control s1 = control s" using control_update_put[of c s] u by simp
  from i PPut c1 show ?thesis unfolding s' startup_inv_def control_def by auto
qed

lemma startup_worker_step:
  assumes i: "startup_inv s" and st: "worker_step s = Some s'"
  shows "startup_inv s'"
proof (cases "worker_at s")
  case WNone
  with st show ?thesis by (simp add: worker_step_def)
next
  case WStart
  with st have s': "s' = run_build s" by (simp add: worker_step_def)
  from i WStart consider
      (a) d where "setup_f s" "parent_at s = PArrive d" "waiting (barrier s) = []"
         "generation (barrier s) = 0" "parties (barrier s) = 2"
    | (b) d where "setup_f s" "parent_at s = PBarrier d" "waiting (barrier s) = [Parent]"
         "generation (barrier s) = 0" "parties (barrier s) = 2"
    unfolding startup_inv_def by (auto simp: arriving_iff at_barrier_iff)
  then show ?thesis
  proof cases
    case a
    then show ?thesis
      unfolding s' startup_inv_def run_build_def build_gui_def barrier_wait_def by (simp add: Let_def)
  next
    case b
    then show ?thesis
      unfolding s' startup_inv_def run_build_def build_gui_def barrier_wait_def by (simp add: Let_def)
  qed
next
  case WBarrier
  with st have s': "s' = run_loop s" and nw: "Worker \<notin> set (waiting (barrier s))"
    by (auto simp: worker_step_def split: if_splits)
  from i WBarrier nw have "setup_f s \<and> \<not> arriving (parent_at s)
      \<and> gui_built s \<and> waiting (barrier s) = [] \<and> generation (barrier s) = 1 \<and> parties (barrier s) = 2"
    unfolding startup_inv_def by auto
  then show ?thesis unfolding s' startup_inv_def run_loop_def by simp
next
  case WLoop
  with st have s': "s' = s\<lparr>worker_at := WDone\<rparr>"
    by (auto simp: worker_step_def split: if_splits)
  from i WLoop show ?thesis unfolding s' startup_inv_def by auto
next
  case WDone
  with st show ?thesis by (simp add: worker_step_def)
qed

lemma step_startup:
  assumes i: "startup_inv s" and st: "step e s = Some s'"
  shows "startup_inv s'"
proof (cases e)
  case (Call_update d)
  with i st show ?thesis by (auto intro: startup_call_update)
next
  case Call_stop
  with st have "s' = stop Parent s" by (auto split: if_splits)
  with i show ?thesis by (simp add: startup_inv_control[OF control_stop])
next
  case Parent_step
  with i st show ?thesis by (auto intro: startup_parent_step)
next
  case Worker_step
  with i st show ?thesis by (auto intro: startup_worker_step)
next
  case Timer_tick
  with st have "s' = state_of (on_timer s)" by (auto split: if_splits dest: settle_state)
  with i show ?thesis by (simp add: startup_inv_control[OF control_on_timer])
next
  case (Key_press k)
  with st have "s' = dispatch k s" by (auto split: if_splits)
  with i show ?thesis by (simp add: startup_inv_control[OF control_dispatch])
next
  case (Feeder_step p)
  with st obtain q where "s' = s\<lparr>queue_in := q\<rparr>" by (auto split: option.splits)
  with i show ?thesis by (simp add: startup_inv_control[OF control_queue_in])
qed

lemma execute_startup: "startup_inv s \<Longrightarrow> execute es s = Some s' \<Longrightarrow> startup_inv s'"
proof (induction es arbitrary: s)
  case Nil
  then show ?case by simp
next
  case (Cons e es)
  then show ?case by (auto split: option.splits dest: step_startup)
qed

lemma init_startup: "startup_inv (init ts ds)"
  by (simp add: startup_inv_def init_def Barrier_def)

lemmas vis_defs = init_def Queue_def Barrier_def queued_def queue_empty_def queue_full_def
  queue_put_def queue_put_nowait_def queue_feed_def queue_get_def barrier_wait_def deepcopy_def contents_def getitem_def
  build_gui_def run_build_def run_loop_def requeue_def dispatch_def positive_mask_def
  index_mask_def and_tensors_def select_points_def point_colours_def redraw_def on_timer_def
  start_def update_setup_def update_wait_def update_startup_def update_test_def update_put_def
  update_enqueue_def update_def stop_def settle_def parent_step_def worker_step_def in_loop_def
  Let_def

lemma is_positive_iff: "is_positive x \<longleftrightarrow> exp x > 7 / 3"
proof -
  have e: "exp (- x) = 1 / exp x" by (simp add: exp_minus inverse_eq_divide)
  have p: "exp x > 0" by simp
  have q: "1 + exp x > 0" by (rule add_pos_pos) simp_all
  have "sigmoid x = exp x / (1 + exp x)"
    unfolding sigmoid_def e using p by (simp add: field_simps)
  then have "is_positive x \<longleftrightarrow> 7 / 10 < exp x / (1 + exp x)" by (simp add: is_positive_def)
  also have "\<dots> \<longleftrightarrow> 7 / 10 * (1 + exp x) < exp x" using q by (simp only: pos_less_divide_eq)
  also have "\<dots> \<longleftrightarrow> exp x > 7 / 3" by (simp add: field_simps)
  finally show ?thesis .
qed

lemma is_positive_0: "\<not> is_positive 0"
  by (simp add: is_positive_iff)

lemma is_positive_2: "is_positive 2"
proof -
  have "(1::real) + 2 \<le> exp 2" by (rule exp_ge_add_one_self)
  then show ?thesis unfolding is_positive_iff by simp
qed

lemma execute_append:
  "execute (es @ fs) s = (case execute es s of None \<Rightarrow> None | Some s1 \<Rightarrow> execute fs s1)"
  by (induction es arbitrary: s) (auto split: option.splits)

lemma execute_after:
  "execute es s = Some s1 \<Longrightarrow> execute fs s1 = Some s2 \<Longrightarrow> execute (es @ fs) s = Some s2"
  by (simp add: execute_append)

lemma buffer_clear: "(\<lambda>p. [])(p := []) = (\<lambda>p. [])"
  by (rule ext) simp

lemma demo_first: "execute (first_update 0 @ [Feeder_step Parent]) demo = Some demo_running"
  by (simp add: demo_def demo_running_def first_update_def vis_defs buffer_clear)

text \<open>
  Claim C4. In every state that any interleaving of the steps of the two processes and of
  the feeder threads reaches from a freshly constructed visualizer, the queue has capacity
  one and holds at most one item, an item still in a buffer counted.
\<close>

theorem queue_capacity_one:
  assumes "execute es (init ts ds) = Some s"
  shows "maxsize (queue_in s) = 1 \<and> length (queued (queue_in s)) \<le> 1"
  using execute_bounded[OF init_bounded assms] by (simp add: queue_bounded_def)

theorem queue_capacity_one_witness:
  "\<exists>s. execute (first_update 0 @
            [Feeder_step Parent, Timer_tick, Key_press ''c'', Key_press ''g'', Feeder_step Worker,
             Call_update 0, Parent_step]) demo = Some s
      \<and> queued (queue_in s) = [2] \<and> pipe (queue_in s) = [2] \<and> last_data s = Some 2
      \<and> parent_at s = PIdle \<and> maxsize (queue_in s) = 1
      \<and> length (queued (queue_in s)) \<le> 1"
proof -
  have "\<exists>s. execute [Timer_tick, Key_press ''c'', Key_press ''g'', Feeder_step Worker,
                      Call_update 0, Parent_step]
            demo_running = Some s \<and> queued (queue_in s) = [2] \<and> pipe (queue_in s) = [2]
            \<and> last_data s = Some 2 \<and> parent_at s = PIdle"
    by (simp add: demo_running_def vis_defs is_positive_0 is_positive_2)
  then obtain s where
    r1: "execute [Timer_tick, Key_press ''c'', Key_press ''g'', Feeder_step Worker,
                  Call_update 0, Parent_step] demo_running = Some s"
    and q: "queued (queue_in s) = [2]" and pi: "pipe (queue_in s) = [2]"
    and l: "last_data s = Some 2" and p: "parent_at s = PIdle"
    by (elim exE conjE)
  have r: "execute (first_update 0 @
            [Feeder_step Parent, Timer_tick, Key_press ''c'', Key_press ''g'', Feeder_step Worker,
             Call_update 0, Parent_step]) demo = Some s"
    using execute_after[OF demo_first r1] by simp
  from queue_capacity_one[OF r[unfolded demo_def]] r q pi l p show ?thesis
    by (intro exI[of _ s]) simp
qed

lemma control_barrier: "control s' = control s \<Longrightarrow> barrier s' = barrier s"
  by (simp add: control_def)

lemma barrier_frame:
  assumes st: "step e s = Some s'"
    and np: "\<not> arriving (parent_at s)" and nw: "worker_at s \<noteq> WStart"
    and su: "setup_f s"
  shows "barrier s' = barrier s"
proof (cases e)
  case (Call_update d)
  with st su show ?thesis by (auto split: if_splits)
next
  case Call_stop
  with st show ?thesis by (auto simp: stop_def split: if_splits)
next
  case Parent_step
  show ?thesis
  proof (cases "parent_at s")
    case PIdle
    with st Parent_step show ?thesis by (simp add: parent_step_def)
  next
    case (PArrive d)
    with np show ?thesis by simp
  next
    case (PBarrier d)
    with st Parent_step show ?thesis by (auto simp: parent_step_def split: if_splits)
  next
    case (PTest d)
    obtain c s1 where dc: "deepcopy d s = (c, s1)" by (cases "deepcopy d s")
    from st Parent_step PTest dc
    have "s' = s1\<lparr>parent_at := PPut c\<rparr> \<or> s' = s\<lparr>parent_at := PIdle\<rparr>"
      by (auto simp: parent_step_def split: if_splits)
    with control_barrier[OF control_deepcopy[OF dc]] show ?thesis by auto
  next
    case (PPut c)
    from st Parent_step PPut obtain s1 where u: "update_put c s = Returns s1"
      and s': "s' = s1\<lparr>parent_at := PIdle\<rparr>"
      by (cases "update_put c s") (simp_all add: parent_step_def update_put_not_raises)
    have "barrier s1 = barrier s" using control_barrier[OF control_update_put[of c s]] u by simp
    with s' show ?thesis by simp
  qed
next
  case Worker_step
  with st nw show ?thesis
    by (auto simp: worker_step_def run_loop_def split: wpc.splits if_splits)
next
  case Timer_tick
  with st have "s' = state_of (on_timer s)" by (auto split: if_splits dest: settle_state)
  then show ?thesis by (simp add: control_barrier[OF control_on_timer])
next
  case (Key_press k)
  with st have "s' = dispatch k s" by (auto split: if_splits)
  then show ?thesis by (simp add: control_barrier[OF control_dispatch])
next
  case (Feeder_step p)
  with st obtain q where "s' = s\<lparr>queue_in := q\<rparr>" by (auto split: option.splits)
  then show ?thesis by simp
qed

lemma startup_facts:
  assumes i: "startup_inv s"
  shows "generation (barrier s) \<le> 1"
    and "generation (barrier s) = 1 \<Longrightarrow> waiting (barrier s) = []"
    and "generation (barrier s) = 1 \<Longrightarrow>
           setup_f s \<and> \<not> arriving (parent_at s) \<and> worker_at s \<noteq> WStart"
    and "parent_past_barrier s \<Longrightarrow>
           generation (barrier s) = 1 \<and> gui_built s
           \<and> (worker_at s = WBarrier \<or> worker_at s = WLoop \<or> worker_at s = WDone)"
    and "setup_f s \<longleftrightarrow> worker_at s \<noteq> WNone"
    and "\<not> setup_f s \<Longrightarrow>
           generation (barrier s) = 0 \<and> waiting (barrier s) = [] \<and> parent_at s = PIdle
           \<and> worker_at s = WNone"
  using i unfolding startup_inv_def parent_past_barrier_def by auto

lemma control_setup_f: "control s' = control s \<Longrightarrow> setup_f s' = setup_f s"
  by (simp add: control_def)

lemma step_keeps_setup_f:
  assumes st: "step e s = Some s'" and su: "setup_f s"
  shows "setup_f s'"
proof (cases e)
  case (Call_update d)
  with st su show ?thesis by (auto split: if_splits)
next
  case Call_stop
  with st su show ?thesis by (auto simp: stop_def split: if_splits)
next
  case Parent_step
  show ?thesis
  proof (cases "parent_at s")
    case PIdle
    with st Parent_step show ?thesis by (simp add: parent_step_def)
  next
    case (PArrive d)
    with st Parent_step su show ?thesis by (auto simp: parent_step_def update_wait_def)
  next
    case (PBarrier d)
    with st Parent_step su show ?thesis by (auto simp: parent_step_def split: if_splits)
  next
    case (PTest d)
    obtain c s1 where dc: "deepcopy d s = (c, s1)" by (cases "deepcopy d s")
    from st Parent_step PTest dc
    have "s' = s1\<lparr>parent_at := PPut c\<rparr> \<or> s' = s\<lparr>parent_at := PIdle\<rparr>"
      by (auto simp: parent_step_def split: if_splits)
    with control_setup_f[OF control_deepcopy[OF dc]] su show ?thesis by auto
  next
    case (PPut c)
    from st Parent_step PPut obtain s1 where u: "update_put c s = Returns s1"
      and s': "s' = s1\<lparr>parent_at := PIdle\<rparr>"
      by (cases "update_put c s") (simp_all add: parent_step_def update_put_not_raises)
    have "setup_f s1 = setup_f s" using control_setup_f[OF control_update_put[of c s]] u by simp
    with s' su show ?thesis by simp
  qed
next
  case Worker_step
  with st su show ?thesis
    by (auto simp: worker_step_def run_loop_def run_build_def build_gui_def Let_def
             split: wpc.splits if_splits)
next
  case Timer_tick
  with st have "s' = state_of (on_timer s)" by (auto split: if_splits dest: settle_state)
  with su show ?thesis by (simp add: control_setup_f[OF control_on_timer])
next
  case (Key_press k)
  with st have "s' = dispatch k s" by (auto split: if_splits)
  with su show ?thesis by (simp add: control_setup_f[OF control_dispatch])
next
  case (Feeder_step p)
  with st obtain q where "s' = s\<lparr>queue_in := q\<rparr>" by (auto split: option.splits)
  with su show ?thesis by simp
qed

text \<open>
  Claim C5. In every reachable state the barrier has been passed at most once. When the
  parent is past the wait of its first \<^verbatim>\<open>update\<close>, the barrier has been passed, and the
  worker has finished \<^verbatim>\<open>build_gui\<close> and reached its own wait. Once the barrier has been
  passed nobody waits at it and no step changes it again. A call of \<^verbatim>\<open>update\<close> made
  when \<open>setup_f\<close> is set goes straight to the test of the queue, and \<open>setup_f\<close> stays set;
  only a call made before, when nothing has been started, starts the worker and heads for
  the barrier.
\<close>

theorem barrier_passed_once:
  assumes "execute es (init ts ds) = Some s"
  shows "generation (barrier s) \<le> 1
    \<and> (parent_past_barrier s \<longrightarrow>
          generation (barrier s) = 1 \<and> gui_built s
          \<and> (worker_at s = WBarrier \<or> worker_at s = WLoop \<or> worker_at s = WDone))
    \<and> (generation (barrier s) = 1 \<longrightarrow>
          waiting (barrier s) = [] \<and> (\<forall>e s'. step e s = Some s' \<longrightarrow> barrier s' = barrier s))
    \<and> (setup_f s \<longrightarrow>
          (\<forall>d. step (Call_update d) s =
                (if parent_at s = PIdle then Some (s\<lparr>parent_at := PTest d\<rparr>) else None))
          \<and> (\<forall>e s'. step e s = Some s' \<longrightarrow> setup_f s'))
    \<and> (\<not> setup_f s \<longrightarrow>
          generation (barrier s) = 0 \<and> waiting (barrier s) = [] \<and> worker_at s = WNone
          \<and> (\<forall>d. step (Call_update d) s =
                Some (s\<lparr>setup_f := True, worker_at := WStart, parent_at := PArrive d\<rparr>)))"
proof -
  have i: "startup_inv s" by (rule execute_startup[OF init_startup assms])
  note f = startup_facts[OF i]
  have a: "generation (barrier s) \<le> 1" by (rule f(1))
  have b: "parent_past_barrier s \<longrightarrow>
          generation (barrier s) = 1 \<and> gui_built s
          \<and> (worker_at s = WBarrier \<or> worker_at s = WLoop \<or> worker_at s = WDone)"
    using f(4) by (rule impI)
  have c: "generation (barrier s) = 1 \<longrightarrow>
          waiting (barrier s) = [] \<and> (\<forall>e s'. step e s = Some s' \<longrightarrow> barrier s' = barrier s)"
  proof (intro impI conjI allI)
    assume g: "generation (barrier s) = 1"
    show "waiting (barrier s) = []" by (rule f(2)[OF g])
    fix e s' assume st: "step e s = Some s'"
    from f(3)[OF g] show "barrier s' = barrier s"
      by (intro barrier_frame[OF st]) simp_all
  qed
  have d: "setup_f s \<longrightarrow>
          (\<forall>d. step (Call_update d) s =
                (if parent_at s = PIdle then Some (s\<lparr>parent_at := PTest d\<rparr>) else None))
          \<and> (\<forall>e s'. step e s = Some s' \<longrightarrow> setup_f s')"
  proof (intro impI conjI allI)
    fix d assume "setup_f s"
    then show "step (Call_update d) s =
                (if parent_at s = PIdle then Some (s\<lparr>parent_at := PTest d\<rparr>) else None)"
      by simp
  next
    fix e s' assume su: "setup_f s" and st: "step e s = Some s'"
    show "setup_f s'" by (rule step_keeps_setup_f[OF st su])
  qed
  have e: "\<not> setup_f s \<longrightarrow>
          generation (barrier s) = 0 \<and> waiting (barrier s) = [] \<and> worker_at s = WNone
          \<and> (\<forall>d. step (Call_update d) s =
                Some (s\<lparr>setup_f := True, worker_at := WStart, parent_at := PArrive d\<rparr>))"
  proof (intro impI)
    assume n: "\<not> setup_f s"
    from f(6)[OF n] show "generation (barrier s) = 0 \<and> waiting (barrier s) = [] \<and> worker_at s = WNone
          \<and> (\<forall>d. step (Call_update d) s =
                Some (s\<lparr>setup_f := True, worker_at := WStart, parent_at := PArrive d\<rparr>))"
      using n by (simp add: update_setup_def start_def Let_def)
  qed
  from a b c d e show ?thesis by (intro conjI)
qed

theorem barrier_passed_once_witness:
  "\<exists>s. execute [Call_update 0, Worker_step, Parent_step, Parent_step] demo = Some s
      \<and> parent_at s = PTest 0 \<and> setup_f s \<and> worker_at s = WBarrier
      \<and> generation (barrier s) = 1 \<and> gui_built s \<and> waiting (barrier s) = []
      \<and> step (Call_update 0) s = None"
proof -
  have "\<exists>s. execute [Call_update 0, Worker_step, Parent_step, Parent_step] demo = Some s
      \<and> parent_at s = PTest 0 \<and> setup_f s \<and> worker_at s = WBarrier"
    by (simp add: demo_def vis_defs)
  then obtain s where r: "execute [Call_update 0, Worker_step, Parent_step, Parent_step] demo = Some s"
    and p: "parent_at s = PTest 0" and su: "setup_f s" and w: "worker_at s = WBarrier"
    by (elim exE conjE)
  have pp: "parent_past_barrier s" using p su by (simp add: parent_past_barrier_def)
  note t = barrier_passed_once[OF r[unfolded demo_def]]
  note t2 = t[THEN conjunct2, THEN conjunct1]
  note t3 = t[THEN conjunct2, THEN conjunct2, THEN conjunct1]
  note t4 = t[THEN conjunct2, THEN conjunct2, THEN conjunct2, THEN conjunct1]
  note t2' = t2[THEN mp, OF pp]
  have g: "generation (barrier s) = 1" by (rule t2'[THEN conjunct1])
  have gb: "gui_built s" by (rule t2'[THEN conjunct2, THEN conjunct1])
  have wt: "waiting (barrier s) = []" by (rule t3[THEN mp, OF g, THEN conjunct1])
  have "step (Call_update 0) s =
      (if parent_at s = PIdle then Some (s\<lparr>parent_at := PTest 0\<rparr>) else None)"
    by (rule t4[THEN mp, OF su, THEN conjunct1, THEN spec])
  then have c: "step (Call_update 0) s = None" unfolding p by simp
  from r p su w g gb wt c show ?thesis by (intro exI[of _ s] conjI)
qed

lemma copy_entries_spec:
  assumes "copy_entries kvs memo ts = (kvs', memo', ts')"
    and "n0 \<le> length ts"
    and "\<forall>(k, a) \<in> set kvs. a < n0"
    and "\<forall>(a, a') \<in> set memo. a < n0 \<and> n0 \<le> a' \<and> a' < length ts \<and> ts ! a' = ts ! a"
  shows "\<exists>ext. ts' = ts @ ext
     \<and> (\<forall>(k, a') \<in> set kvs'. n0 \<le> a' \<and> a' < length ts')
     \<and> map (\<lambda>(k, a'). (k, ts' ! a')) kvs' = map (\<lambda>(k, a). (k, ts ! a)) kvs"
  using assms
proof (induction kvs arbitrary: memo ts kvs' memo' ts')
  case Nil
  then show ?case by simp
next
  case (Cons ka kvs)
  obtain k a where ka: "ka = (k, a)" by (cases ka)
  from Cons.prems(3) ka have a: "a < n0" and rest: "\<forall>(k, a) \<in> set kvs. a < n0" by auto
  show ?case
  proof (cases "map_of memo a")
    case (Some a')
    obtain r1 r2 r3 where r: "copy_entries kvs memo ts = (r1, r2, r3)"
      by (cases "copy_entries kvs memo ts")
    from Cons.prems(1) ka Some r have eq: "kvs' = (k, a') # r1" "ts' = r3" by auto
    from Cons.IH[OF r Cons.prems(2) rest Cons.prems(4)] obtain ext where
      e: "r3 = ts @ ext" and f: "\<forall>(k, a') \<in> set r1. n0 \<le> a' \<and> a' < length r3"
      and m: "map (\<lambda>(k, a'). (k, r3 ! a')) r1 = map (\<lambda>(k, a). (k, ts ! a)) kvs"
      by blast
    from map_of_SomeD[OF Some] Cons.prems(4)
    have am: "n0 \<le> a'" "a' < length ts" "ts ! a' = ts ! a" by auto
    have "r3 ! a' = ts ! a" using e am by (simp add: nth_append)
    with e f m am show ?thesis unfolding eq ka by (intro exI[of _ ext]) auto
  next
    case None
    let ?ts2 = "ts @ [ts ! a]"
    let ?memo2 = "(a, length ts) # memo"
    obtain r1 r2 r3 where r: "copy_entries kvs ?memo2 ?ts2 = (r1, r2, r3)"
      by (cases "copy_entries kvs ?memo2 ?ts2")
    from Cons.prems(1) ka None r have eq: "kvs' = (k, length ts) # r1" "ts' = r3" by auto
    have n2: "n0 \<le> length ?ts2" using Cons.prems(2) by simp
    have m2: "\<forall>(b, b') \<in> set ?memo2. b < n0 \<and> n0 \<le> b' \<and> b' < length ?ts2 \<and> ?ts2 ! b' = ?ts2 ! b"
    proof -
      have "a < length ts" using a Cons.prems(2) by simp
      then have h: "?ts2 ! length ts = ?ts2 ! a" by (simp add: nth_append)
      have "\<forall>(b, b') \<in> set memo. b < n0 \<and> n0 \<le> b' \<and> b' < length ?ts2 \<and> ?ts2 ! b' = ?ts2 ! b"
        using Cons.prems(4) Cons.prems(2) by (auto simp: nth_append)
      with h a Cons.prems(2) show ?thesis by simp
    qed
    from Cons.IH[OF r n2 rest m2] obtain ext where
      e: "r3 = ?ts2 @ ext" and f: "\<forall>(k, a') \<in> set r1. n0 \<le> a' \<and> a' < length r3"
      and m: "map (\<lambda>(k, a'). (k, r3 ! a')) r1 = map (\<lambda>(k, a). (k, ?ts2 ! a)) kvs"
      by blast
    have m': "map (\<lambda>(k, a). (k, ?ts2 ! a)) kvs = map (\<lambda>(k, a). (k, ts ! a)) kvs"
      using rest Cons.prems(2) by (auto simp: nth_append)
    have h: "r3 ! length ts = ts ! a" using e by (simp add: nth_append)
    have e': "r3 = ts @ (ts ! a # ext)" using e by simp
    show ?thesis unfolding eq ka
      using e' f m m' h Cons.prems(2) by (intro exI[of _ "ts ! a # ext"]) auto
  qed
qed

lemma deepcopy_spec:
  assumes v: "valid_data s d"
  shows "\<exists>kvs' ext.
      deepcopy d s = (length (dicts s), s\<lparr>tensors := tensors s @ ext, dicts := dicts s @ [kvs']\<rparr>)
    \<and> (\<forall>(k, a') \<in> set kvs'. length (tensors s) \<le> a' \<and> a' < length (tensors s @ ext))
    \<and> map (\<lambda>(k, a'). (k, (tensors s @ ext) ! a')) kvs' = contents s d"
proof -
  obtain r1 r2 r3 where r: "copy_entries (dicts s ! d) [] (tensors s) = (r1, r2, r3)"
    by (cases "copy_entries (dicts s ! d) [] (tensors s)")
  have b: "\<forall>(k, a) \<in> set (dicts s ! d). a < length (tensors s)"
    using v by (auto simp: valid_data_def list_all_iff)
  from copy_entries_spec[OF r le_refl b] obtain ext where
    e: "r3 = tensors s @ ext"
    and f: "\<forall>(k, a') \<in> set r1. length (tensors s) \<le> a' \<and> a' < length r3"
    and m: "map (\<lambda>(k, a'). (k, r3 ! a')) r1 = map (\<lambda>(k, a). (k, tensors s ! a)) (dicts s ! d)"
    by auto
  show ?thesis
    using r e f m by (intro exI[of _ r1] exI[of _ ext]) (simp add: deepcopy_def contents_def)
qed

lemma update_put_free:
  assumes "queued (queue_in s) = []"
  shows "update_put c s =
     Returns (s\<lparr>queue_in := (queue_in s)\<lparr>buffer := (buffer (queue_in s))(Parent := [c])\<rparr>\<rparr>)"
proof -
  from assms have b: "buffer (queue_in s) Parent = []" by (simp add: queued_def)
  from assms have "\<not> queue_full (queue_in s)"
    by (cases "maxsize (queue_in s)") (simp_all add: queue_full_def)
  then show ?thesis by (simp add: update_put_def queue_put_def b)
qed

lemma update_put_full:
  assumes "maxsize (queue_in s) = 1" and "queued (queue_in s) \<noteq> []"
  shows "update_put c s = Blocks s"
proof -
  from assms(2) have "1 \<le> length (queued (queue_in s))"
    by (cases "queued (queue_in s)") simp_all
  with assms(1) have "queue_full (queue_in s)" by (simp add: queue_full_def)
  then show ?thesis by (simp add: update_put_def queue_put_def)
qed

lemma update_after_setup:
  assumes su: "setup_f s" and v: "valid_data s d"
  shows "\<not> queue_empty (queue_in s) \<Longrightarrow> update d s = Returns s"
    and "queued (queue_in s) = [] \<Longrightarrow>
      \<exists>kvs' ext. update d s =
          Returns (s\<lparr>tensors := tensors s @ ext, dicts := dicts s @ [kvs'],
                     queue_in := (queue_in s)\<lparr>buffer := (buffer (queue_in s))
                                                 (Parent := [length (dicts s)])\<rparr>\<rparr>)
        \<and> (\<forall>(k, a') \<in> set kvs'. length (tensors s) \<le> a' \<and> a' < length (tensors s @ ext))
        \<and> map (\<lambda>(k, a'). (k, (tensors s @ ext) ! a')) kvs' = contents s d"
    and "queue_empty (queue_in s) \<Longrightarrow> queued (queue_in s) \<noteq> [] \<Longrightarrow> maxsize (queue_in s) = 1 \<Longrightarrow>
      \<exists>kvs' ext. update d s =
          Blocks (s\<lparr>tensors := tensors s @ ext, dicts := dicts s @ [kvs']\<rparr>)"
proof -
  show "\<not> queue_empty (queue_in s) \<Longrightarrow> update d s = Returns s"
    using su by (simp add: update_def update_enqueue_def update_test_def)
  from deepcopy_spec[OF v] obtain kvs' ext where
    dc: "deepcopy d s = (length (dicts s), s\<lparr>tensors := tensors s @ ext, dicts := dicts s @ [kvs']\<rparr>)"
    and f: "\<forall>(k, a') \<in> set kvs'. length (tensors s) \<le> a' \<and> a' < length (tensors s @ ext)"
    and m: "map (\<lambda>(k, a'). (k, (tensors s @ ext) ! a')) kvs' = contents s d"
    by blast
  let ?s1 = "s\<lparr>tensors := tensors s @ ext, dicts := dicts s @ [kvs']\<rparr>"
  {
    assume e: "queued (queue_in s) = []"
    then have e0: "queue_empty (queue_in s)" by (simp add: queued_def queue_empty_def)
    have e1: "queued (queue_in ?s1) = []" using e by simp
    have "update d s = update_put (length (dicts s)) ?s1"
      using su e0 dc by (simp add: update_def update_enqueue_def update_test_def)
    also have "\<dots> = Returns (?s1\<lparr>queue_in := (queue_in ?s1)\<lparr>buffer := (buffer (queue_in ?s1))
                                                 (Parent := [length (dicts s)])\<rparr>\<rparr>)"
      by (rule update_put_free[OF e1])
    finally have "update d s =
          Returns (s\<lparr>tensors := tensors s @ ext, dicts := dicts s @ [kvs'],
                     queue_in := (queue_in s)\<lparr>buffer := (buffer (queue_in s))
                                                 (Parent := [length (dicts s)])\<rparr>\<rparr>)"
      by simp
    with f m show "\<exists>kvs' ext. update d s =
          Returns (s\<lparr>tensors := tensors s @ ext, dicts := dicts s @ [kvs'],
                     queue_in := (queue_in s)\<lparr>buffer := (buffer (queue_in s))
                                                 (Parent := [length (dicts s)])\<rparr>\<rparr>)
        \<and> (\<forall>(k, a') \<in> set kvs'. length (tensors s) \<le> a' \<and> a' < length (tensors s @ ext))
        \<and> map (\<lambda>(k, a'). (k, (tensors s @ ext) ! a')) kvs' = contents s d"
      by blast
  }
  {
    assume e0: "queue_empty (queue_in s)" and ne: "queued (queue_in s) \<noteq> []"
      and mx: "maxsize (queue_in s) = 1"
    have "update d s = update_put (length (dicts s)) ?s1"
      using su e0 dc by (simp add: update_def update_enqueue_def update_test_def)
    also have "\<dots> = Blocks ?s1" by (rule update_put_full) (use ne mx in simp_all)
    finally show "\<exists>kvs' ext. update d s =
          Blocks (s\<lparr>tensors := tensors s @ ext, dicts := dicts s @ [kvs']\<rparr>)"
      by blast
  }
qed

lemma copy_entries_extends:
  "copy_entries kvs memo ts = (kvs', memo', ts') \<Longrightarrow> \<exists>ext. ts' = ts @ ext"
proof (induction kvs arbitrary: memo ts kvs' memo' ts')
  case Nil
  then show ?case by simp
next
  case (Cons ka kvs)
  obtain k a where ka: "ka = (k, a)" by (cases ka)
  show ?case
  proof (cases "map_of memo a")
    case (Some a')
    obtain r1 r2 r3 where r: "copy_entries kvs memo ts = (r1, r2, r3)"
      by (cases "copy_entries kvs memo ts")
    from Cons.prems ka Some r have "ts' = r3" by auto
    with Cons.IH[OF r] show ?thesis by simp
  next
    case None
    obtain r1 r2 r3 where r: "copy_entries kvs ((a, length ts) # memo) (ts @ [ts ! a]) = (r1, r2, r3)"
      by (cases "copy_entries kvs ((a, length ts) # memo) (ts @ [ts ! a])")
    from Cons.prems ka None r have "ts' = r3" by auto
    with Cons.IH[OF r] show ?thesis by auto
  qed
qed

lemma deepcopy_extends:
  "\<exists>ext kvs'. deepcopy d s =
      (length (dicts s), s\<lparr>tensors := tensors s @ ext, dicts := dicts s @ [kvs']\<rparr>)"
proof -
  obtain r1 r2 r3 where r: "copy_entries (dicts s ! d) [] (tensors s) = (r1, r2, r3)"
    by (cases "copy_entries (dicts s ! d) [] (tensors s)")
  from copy_entries_extends[OF r] obtain ext where "r3 = tensors s @ ext" by blast
  with r have "deepcopy d s =
      (length (dicts s), s\<lparr>tensors := tensors s @ ext, dicts := dicts s @ [r1]\<rparr>)"
    by (simp add: deepcopy_def)
  then show ?thesis by blast
qed

lemma store_on_timer:
  "tensors (state_of (on_timer s)) = tensors s \<and> dicts (state_of (on_timer s)) = dicts s"
proof -
  have "tensors (state_of (redraw d t)) = tensors t \<and> dicts (state_of (redraw d t)) = dicts t"
    for d t using redraw_frame[of d t] by auto
  then show ?thesis unfolding on_timer_def by (simp split: option.splits prod.splits)
qed

lemma store_dispatch: "tensors (dispatch k s) = tensors s \<and> dicts (dispatch k s) = dicts s"
  unfolding dispatch_def requeue_def by (simp add: Let_def split: option.splits sum.splits)

lemma store_parent_step:
  assumes "parent_step s = Some s'"
  shows "\<exists>ext extd. tensors s' = tensors s @ ext \<and> dicts s' = dicts s @ extd"
proof (cases "parent_at s")
  case PIdle
  with assms show ?thesis by (simp add: parent_step_def)
next
  case (PArrive d)
  with assms show ?thesis by (auto simp: parent_step_def update_wait_def)
next
  case (PBarrier d)
  with assms show ?thesis by (auto simp: parent_step_def split: if_splits)
next
  case (PTest d)
  from deepcopy_extends[of d s] obtain ext kvs' where
    dc: "deepcopy d s = (length (dicts s), s\<lparr>tensors := tensors s @ ext, dicts := dicts s @ [kvs']\<rparr>)"
    by blast
  from assms PTest dc show ?thesis by (auto simp: parent_step_def split: if_splits)
next
  case (PPut c)
  from assms PPut obtain s1 where u: "update_put c s = Returns s1" and s': "s' = s1\<lparr>parent_at := PIdle\<rparr>"
    by (cases "update_put c s") (simp_all add: parent_step_def update_put_not_raises)
  from u have "tensors s1 = tensors s \<and> dicts s1 = dicts s"
    by (auto simp: update_put_def split: option.splits)
  with s' show ?thesis by simp
qed

lemma step_store:
  assumes st: "step e s = Some s'"
  shows "\<exists>ext extd. tensors s' = tensors s @ ext \<and> dicts s' = dicts s @ extd"
proof (cases e)
  case (Call_update d)
  have "tensors (state_of (update_setup s)) = tensors s \<and> dicts (state_of (update_setup s)) = dicts s"
    by (simp add: update_setup_def start_def Let_def)
  with st Call_update show ?thesis by (auto split: if_splits outcome.splits)
next
  case Call_stop
  with st show ?thesis by (auto simp: stop_def split: if_splits)
next
  case Parent_step
  with st show ?thesis by (auto dest: store_parent_step)
next
  case Worker_step
  with st show ?thesis
    by (auto simp: worker_step_def run_build_def run_loop_def build_gui_def Let_def
             split: wpc.splits if_splits)
next
  case Timer_tick
  with st have "s' = state_of (on_timer s)" by (auto split: if_splits dest: settle_state)
  with store_on_timer[of s] show ?thesis by simp
next
  case (Key_press k)
  with st have "s' = dispatch k s" by (auto split: if_splits)
  with store_dispatch[of k s] show ?thesis by simp
next
  case (Feeder_step p)
  with st obtain q where "s' = s\<lparr>queue_in := q\<rparr>" by (auto split: option.splits)
  then show ?thesis by simp
qed

lemma execute_store:
  "execute es s = Some s' \<Longrightarrow> \<exists>ext extd. tensors s' = tensors s @ ext \<and> dicts s' = dicts s @ extd"
proof (induction es arbitrary: s)
  case Nil
  then show ?case by simp
next
  case (Cons e es)
  from Cons.prems obtain s1 where a: "step e s = Some s1" and b: "execute es s1 = Some s'"
    by (auto split: option.splits)
  from step_store[OF a] Cons.IH[OF b] show ?case by auto
qed

lemma contents_extends:
  assumes "valid_data s d" and "tensors s' = tensors s @ ext" and "dicts s' = dicts s @ extd"
  shows "contents s' d = contents s d" and "valid_data s' d"
  using assms unfolding contents_def valid_data_def
  by (auto simp: nth_append list_all_iff intro!: map_cong)

lemma mutate_frame:
  assumes "writes_below nt nd m"
  shows "queue_in (mutate m s) = queue_in s"
    and "length (tensors (mutate m s)) = length (tensors s)"
    and "length (dicts (mutate m s)) = length (dicts s)"
    and "nt \<le> a \<Longrightarrow> tensors (mutate m s) ! a = tensors s ! a"
    and "nd \<le> d \<Longrightarrow> dicts (mutate m s) ! d = dicts s ! d"
  using assms by (cases m; simp)+

lemma act_store:
  assumes "act nt nd a s = Some s'"
  shows "length (tensors s) \<le> length (tensors s') \<and> length (dicts s) \<le> length (dicts s')
     \<and> (\<forall>i. nt \<le> i \<and> i < length (tensors s) \<longrightarrow> tensors s' ! i = tensors s ! i)
     \<and> (\<forall>j. nd \<le> j \<and> j < length (dicts s) \<longrightarrow> dicts s' ! j = dicts s ! j)"
proof (cases a)
  case (Program e)
  with assms have "step e s = Some s'" by simp
  from step_store[OF this] show ?thesis by (auto simp: nth_append)
next
  case (Caller m)
  with assms have w: "writes_below nt nd m" and s': "s' = mutate m s"
    by (auto split: if_splits)
  from mutate_frame[OF w, where s = s] show ?thesis unfolding s' by simp
qed

lemma perform_store:
  "perform nt nd as s = Some s' \<Longrightarrow>
     length (tensors s) \<le> length (tensors s') \<and> length (dicts s) \<le> length (dicts s')
     \<and> (\<forall>i. nt \<le> i \<and> i < length (tensors s) \<longrightarrow> tensors s' ! i = tensors s ! i)
     \<and> (\<forall>j. nd \<le> j \<and> j < length (dicts s) \<longrightarrow> dicts s' ! j = dicts s ! j)"
proof (induction as arbitrary: s)
  case Nil
  then show ?case by simp
next
  case (Cons a as)
  from Cons.prems obtain s1 where x: "act nt nd a s = Some s1" and y: "perform nt nd as s1 = Some s'"
    by (auto split: option.splits)
  note p = act_store[OF x]
  note q = Cons.IH[OF y]
  have l1: "length (tensors s) \<le> length (tensors s')" using p q by linarith
  have l2: "length (dicts s) \<le> length (dicts s')" using p q by linarith
  have t: "\<forall>i. nt \<le> i \<and> i < length (tensors s) \<longrightarrow> tensors s' ! i = tensors s ! i"
  proof (intro allI impI)
    fix i assume i: "nt \<le> i \<and> i < length (tensors s)"
    with p have "i < length (tensors s1)" by linarith
    with i q have "tensors s' ! i = tensors s1 ! i" by blast
    with p i show "tensors s' ! i = tensors s ! i" by simp
  qed
  have d: "\<forall>j. nd \<le> j \<and> j < length (dicts s) \<longrightarrow> dicts s' ! j = dicts s ! j"
  proof (intro allI impI)
    fix j assume j: "nd \<le> j \<and> j < length (dicts s)"
    with p have "j < length (dicts s1)" by linarith
    with j q have "dicts s' ! j = dicts s1 ! j" by blast
    with p j show "dicts s' ! j = dicts s ! j" by simp
  qed
  from l1 l2 t d show ?case by (intro conjI)
qed

lemma contents_frame:
  assumes "dicts s2 ! c = dicts s1 ! c"
    and "\<forall>(k, a) \<in> set (dicts s1 ! c). tensors s2 ! a = tensors s1 ! a"
  shows "contents s2 c = contents s1 c"
  using assms unfolding contents_def by (auto intro!: map_cong)

lemma getitem_contents:
  "getitem s d key = (case map_of (contents s d) key of None \<Rightarrow> Inl KeyError | Some t \<Rightarrow> Inr t)"
proof -
  have "map_of (map (\<lambda>(k, a). (k, tensors s ! a)) kvs) key
      = map_option (\<lambda>a. tensors s ! a) (map_of kvs key)" for kvs
    by (induction kvs) auto
  then show ?thesis by (simp add: getitem_def contents_def split: option.splits)
qed

lemma demo_tick: "execute [Timer_tick] demo_running = Some demo_idle"
  by (simp add: demo_running_def demo_idle_def vis_defs is_positive_0 is_positive_2)

lemma demo_idle_reachable:
  "execute (first_update 0 @ [Feeder_step Parent, Timer_tick]) demo = Some demo_idle"
  using execute_after[OF demo_first demo_tick] by simp

lemma parent_put_item:
  assumes "parent_at s = PPut c" and "step Parent_step s = Some s'"
  shows "buffer (queue_in s') Parent = buffer (queue_in s) Parent @ [c]"
  using assms
  by (auto simp: parent_step_def update_put_def queue_put_def split: option.splits if_splits)

text \<open>
  Claim C10. Take any call of \<^verbatim>\<open>update(data)\<close>, the first one included, and whatever the
  two processes do until the parent stands at the test of line 134. No object that existed
  at the call has changed: the argument is not mutated. When the test fails, the call
  returns and nothing is copied or put. When it passes, the call makes a new dictionary
  and goes on to put it; read at that moment the copy equals \<open>data\<close> as they were at the
  call, and every tensor it refers to is a new object, so it shares nothing with \<open>data\<close>
  or with any other object that existed. From then on, whatever the two processes and the
  feeder threads do, and whatever the caller writes between calls to objects that existed
  when the copy was made, the copy reads as \<open>data\<close> did at the call, as a whole and key
  by key; no step of the program changes an object that exists; and what this call puts
  into the queue is that copy.
\<close>

theorem update_deep_copy:
  assumes "execute (Call_update data # es) s0 = Some s"
    and "parent_at s = PTest data" and "valid_data s0 data"
  shows "take (length (tensors s0)) (tensors s) = tensors s0
     \<and> take (length (dicts s0)) (dicts s) = dicts s0
     \<and> (\<not> update_test s \<longrightarrow> step Parent_step s = Some (s\<lparr>parent_at := PIdle\<rparr>))
     \<and> (update_test s \<longrightarrow>
          (\<exists>s1. step Parent_step s = Some s1
             \<and> parent_at s1 = PPut (length (dicts s))
             \<and> take (length (tensors s)) (tensors s1) = tensors s
             \<and> take (length (dicts s)) (dicts s1) = dicts s
             \<and> contents s1 (length (dicts s)) = contents s0 data
             \<and> (\<forall>(k, a) \<in> set (dicts s1 ! length (dicts s)).
                   length (tensors s) \<le> a \<and> a < length (tensors s1))
             \<and> (\<forall>as s2. perform (length (tensors s)) (length (dicts s)) as s1 = Some s2 \<longrightarrow>
                   contents s2 (length (dicts s)) = contents s0 data
                 \<and> (\<forall>key. getitem s2 (length (dicts s)) key = getitem s0 data key)
                 \<and> (\<forall>e s3. step e s2 = Some s3 \<longrightarrow>
                       take (length (tensors s2)) (tensors s3) = tensors s2
                     \<and> take (length (dicts s2)) (dicts s3) = dicts s2)
                 \<and> (\<forall>s3. parent_at s2 = PPut (length (dicts s)) \<and> step Parent_step s2 = Some s3 \<longrightarrow>
                       buffer (queue_in s3) Parent
                         = buffer (queue_in s2) Parent @ [length (dicts s)]))))"
proof -
  let ?c = "length (dicts s)"
  from execute_store[OF assms(1)] obtain ext0 extd0 where
    e0: "tensors s = tensors s0 @ ext0" "dicts s = dicts s0 @ extd0" by blast
  have k0: "contents s data = contents s0 data" and v: "valid_data s data"
    using contents_extends[OF assms(3) e0] by simp_all
  from deepcopy_spec[OF v] obtain kvs' ext where
    dc: "deepcopy data s = (?c, s\<lparr>tensors := tensors s @ ext, dicts := dicts s @ [kvs']\<rparr>)"
    and f: "\<forall>(k, a') \<in> set kvs'. length (tensors s) \<le> a' \<and> a' < length (tensors s @ ext)"
    and m: "map (\<lambda>(k, a'). (k, (tensors s @ ext) ! a')) kvs' = contents s data"
    by blast
  let ?s1 = "s\<lparr>tensors := tensors s @ ext, dicts := dicts s @ [kvs'], parent_at := PPut ?c\<rparr>"
  have a1: "take (length (tensors s0)) (tensors s) = tensors s0" using e0 by simp
  have a2: "take (length (dicts s0)) (dicts s) = dicts s0" using e0 by simp
  have a3: "\<not> update_test s \<longrightarrow> step Parent_step s = Some (s\<lparr>parent_at := PIdle\<rparr>)"
    using assms(2) by (simp add: parent_step_def)
  have b1: "update_test s \<Longrightarrow> step Parent_step s = Some ?s1"
    using assms(2) dc by (simp add: parent_step_def)
  have b2: "parent_at ?s1 = PPut ?c" by simp
  have b3: "take (length (tensors s)) (tensors ?s1) = tensors s" by simp
  have b4: "take (length (dicts s)) (dicts ?s1) = dicts s" by simp
  have d1: "dicts ?s1 ! ?c = kvs'" by simp
  have b5: "contents ?s1 ?c = contents s0 data"
    using m k0 by (simp add: contents_def)
  have b6: "\<forall>(k, a) \<in> set (dicts ?s1 ! ?c). length (tensors s) \<le> a \<and> a < length (tensors ?s1)"
    using f by simp
  have b7: "contents s2 ?c = contents s0 data
        \<and> (\<forall>key. getitem s2 ?c key = getitem s0 data key)
        \<and> (\<forall>e s3. step e s2 = Some s3 \<longrightarrow>
              take (length (tensors s2)) (tensors s3) = tensors s2
            \<and> take (length (dicts s2)) (dicts s3) = dicts s2)
        \<and> (\<forall>s3. parent_at s2 = PPut ?c \<and> step Parent_step s2 = Some s3 \<longrightarrow>
              buffer (queue_in s3) Parent = buffer (queue_in s2) Parent @ [?c])"
    if p: "perform (length (tensors s)) ?c as ?s1 = Some s2" for as s2
  proof -
    note ps = perform_store[OF p]
    have "dicts s2 ! ?c = dicts ?s1 ! ?c" using ps by simp
    moreover have "\<forall>(k, a) \<in> set (dicts ?s1 ! ?c). tensors s2 ! a = tensors ?s1 ! a"
      using ps b6 by auto
    ultimately have "contents s2 ?c = contents ?s1 ?c" by (rule contents_frame)
    with b5 have c: "contents s2 ?c = contents s0 data" by simp
    then have g: "\<forall>key. getitem s2 ?c key = getitem s0 data key"
      by (simp add: getitem_contents)
    have h: "\<forall>s3. parent_at s2 = PPut ?c \<and> step Parent_step s2 = Some s3 \<longrightarrow>
              buffer (queue_in s3) Parent = buffer (queue_in s2) Parent @ [?c]"
      by (auto dest: parent_put_item)
    have k: "\<forall>e s3. step e s2 = Some s3 \<longrightarrow>
              take (length (tensors s2)) (tensors s3) = tensors s2
            \<and> take (length (dicts s2)) (dicts s3) = dicts s2"
      by (auto dest: step_store)
    from c g k h show ?thesis by (intro conjI)
  qed
  have b: "update_test s \<longrightarrow>
          (\<exists>s1. step Parent_step s = Some s1
             \<and> parent_at s1 = PPut ?c
             \<and> take (length (tensors s)) (tensors s1) = tensors s
             \<and> take (length (dicts s)) (dicts s1) = dicts s
             \<and> contents s1 ?c = contents s0 data
             \<and> (\<forall>(k, a) \<in> set (dicts s1 ! ?c). length (tensors s) \<le> a \<and> a < length (tensors s1))
             \<and> (\<forall>as s2. perform (length (tensors s)) ?c as s1 = Some s2 \<longrightarrow>
                   contents s2 ?c = contents s0 data
                 \<and> (\<forall>key. getitem s2 ?c key = getitem s0 data key)
                 \<and> (\<forall>e s3. step e s2 = Some s3 \<longrightarrow>
                       take (length (tensors s2)) (tensors s3) = tensors s2
                     \<and> take (length (dicts s2)) (dicts s3) = dicts s2)
                 \<and> (\<forall>s3. parent_at s2 = PPut ?c \<and> step Parent_step s2 = Some s3 \<longrightarrow>
                       buffer (queue_in s3) Parent = buffer (queue_in s2) Parent @ [?c])))"
  proof (intro impI exI[of _ ?s1] conjI allI)
    assume "update_test s"
    then show "step Parent_step s = Some ?s1" by (rule b1)
  next
    show "parent_at ?s1 = PPut ?c" by (rule b2)
    show "take (length (tensors s)) (tensors ?s1) = tensors s" by (rule b3)
    show "take (length (dicts s)) (dicts ?s1) = dicts s" by (rule b4)
    show "contents ?s1 ?c = contents s0 data" by (rule b5)
    show "\<forall>(k, a) \<in> set (dicts ?s1 ! ?c). length (tensors s) \<le> a \<and> a < length (tensors ?s1)"
      by (rule b6)
  next
    fix as s2 assume "perform (length (tensors s)) ?c as ?s1 = Some s2"
    note x = b7[OF this]
    show "contents s2 ?c = contents s0 data" by (rule x[THEN conjunct1])
    show "\<And>key. getitem s2 ?c key = getitem s0 data key"
      using x[THEN conjunct2, THEN conjunct1] by (rule spec)
    show "\<And>e s3. step e s2 = Some s3 \<Longrightarrow> take (length (tensors s2)) (tensors s3) = tensors s2"
      using x[THEN conjunct2, THEN conjunct2, THEN conjunct1] by blast
    show "\<And>e s3. step e s2 = Some s3 \<Longrightarrow> take (length (dicts s2)) (dicts s3) = dicts s2"
      using x[THEN conjunct2, THEN conjunct2, THEN conjunct1] by blast
    show "\<And>s3. parent_at s2 = PPut ?c \<and> step Parent_step s2 = Some s3 \<Longrightarrow>
              buffer (queue_in s3) Parent = buffer (queue_in s2) Parent @ [?c]"
      using x[THEN conjunct2, THEN conjunct2, THEN conjunct2] by blast
  qed
  from a1 a2 a3 b show ?thesis by (intro conjI)
qed

theorem update_deep_copy_witness:
  "\<exists>s s1 s2. execute [Call_update 0, Worker_step, Parent_step, Parent_step] demo = Some s
      \<and> parent_at s = PTest 0 \<and> valid_data demo 0 \<and> update_test s
      \<and> step Parent_step s = Some s1 \<and> parent_at s1 = PPut 2
      \<and> perform 5 2 [Program Parent_step, Program Worker_step,
                      Caller (Write_tensor 1 (Floats [5, 5])), Caller (Set_item 0 ''labels'' 4),
                      Program (Feeder_step Parent), Program Timer_tick] s1 = Some s2
      \<and> contents s2 0 = [(''points'', Points [(0, 0, 0), (1, 2, 3)]),
                          (''predictions'', Floats [5, 5]), (''labels'', Bools [False, False])]
      \<and> contents s2 2 = [(''points'', Points [(0, 0, 0), (1, 2, 3)]),
                          (''predictions'', Floats [0, 2]), (''labels'', Bools [False, True])]
      \<and> last_data s2 = Some 2 \<and> scatter s2 = [([(1, - 2, 3)], [(0, 1, 0)])]"
proof -
  let ?as = "[Program Parent_step, Program Worker_step,
              Caller (Write_tensor 1 (Floats [5, 5])), Caller (Set_item 0 ''labels'' 4),
              Program (Feeder_step Parent), Program Timer_tick]"
  have "\<exists>s s1 s2. execute [Call_update 0, Worker_step, Parent_step, Parent_step] demo = Some s
      \<and> parent_at s = PTest 0 \<and> update_test s
      \<and> length (tensors s) = 5 \<and> length (dicts s) = 2
      \<and> step Parent_step s = Some s1
      \<and> perform 5 2 ?as s1 = Some s2
      \<and> contents s2 0 = [(''points'', Points [(0, 0, 0), (1, 2, 3)]),
                          (''predictions'', Floats [5, 5]), (''labels'', Bools [False, False])]
      \<and> last_data s2 = Some 2 \<and> scatter s2 = [([(1, - 2, 3)], [(0, 1, 0)])]"
    by (simp add: demo_def vis_defs is_positive_0 is_positive_2)
  then obtain s s1 s2 where
    r: "execute [Call_update 0, Worker_step, Parent_step, Parent_step] demo = Some s"
    and p: "parent_at s = PTest 0" and ut: "update_test s"
    and lt: "length (tensors s) = 5" and ld: "length (dicts s) = 2"
    and st: "step Parent_step s = Some s1"
    and pf: "perform 5 2 ?as s1 = Some s2"
    and c0: "contents s2 0 = [(''points'', Points [(0, 0, 0), (1, 2, 3)]),
                          (''predictions'', Floats [5, 5]), (''labels'', Bools [False, False])]"
    and l: "last_data s2 = Some 2" and sc: "scatter s2 = [([(1, - 2, 3)], [(0, 1, 0)])]"
    by (elim exE conjE)
  have v: "valid_data demo 0" by (simp add: valid_data_def demo_def init_def)
  have d0: "contents demo 0 = [(''points'', Points [(0, 0, 0), (1, 2, 3)]),
                          (''predictions'', Floats [0, 2]), (''labels'', Bools [False, True])]"
    by (simp add: contents_def demo_def init_def)
  note t = update_deep_copy[OF r p v]
  note t4 = t[THEN conjunct2, THEN conjunct2, THEN conjunct2, THEN mp, OF ut]
  from t4 obtain s1' where x: "step Parent_step s = Some s1'"
    and pp: "parent_at s1' = PPut (length (dicts s))"
    and y: "\<forall>as s2. perform (length (tensors s)) (length (dicts s)) as s1' = Some s2 \<longrightarrow>
                   contents s2 (length (dicts s)) = contents demo 0
                 \<and> (\<forall>key. getitem s2 (length (dicts s)) key = getitem demo 0 key)
                 \<and> (\<forall>e s3. step e s2 = Some s3 \<longrightarrow>
                       take (length (tensors s2)) (tensors s3) = tensors s2
                     \<and> take (length (dicts s2)) (dicts s3) = dicts s2)
                 \<and> (\<forall>s3. parent_at s2 = PPut (length (dicts s)) \<and> step Parent_step s2 = Some s3 \<longrightarrow>
                       buffer (queue_in s3) Parent
                         = buffer (queue_in s2) Parent @ [length (dicts s)])"
    by (elim exE conjE)
  from x st have e: "s1' = s1" by simp
  from pp have pp1: "parent_at s1 = PPut 2" unfolding e ld .
  from y[unfolded e lt ld, THEN spec, THEN spec, THEN mp, OF pf]
  have c2: "contents s2 2 = contents demo 0" by (rule conjunct1)
  from r p v ut st pp1 pf c0 c2[unfolded d0] l sc show ?thesis
    by - (rule exI[of _ s], rule exI[of _ s1], rule exI[of _ s2], (intro conjI; assumption))
qed











lemma index_mask_positives:
  "length preds = length pts \<Longrightarrow>
   index_mask pts (positive_mask preds) = Inr (positives pts preds)"
proof -
  assume l: "length preds = length pts"
  then have "map fst (filter snd (zip pts (map is_positive preds)))
      = [p. (p, x) \<leftarrow> zip pts preds, is_positive x]"
    by (induction preds pts rule: list_induct2) auto
  with l show ?thesis by (simp add: index_mask_def positive_mask_def positives_def)
qed

lemma index_mask_labels:
  "length preds = length labs \<Longrightarrow>
   index_mask labs (positive_mask preds) = Inr [l. (x, l) \<leftarrow> zip preds labs, is_positive x]"
proof -
  assume l: "length preds = length labs"
  then have "map fst (filter snd (zip labs (map is_positive preds)))
      = [l. (x, l) \<leftarrow> zip preds labs, is_positive x]"
    by (induction preds labs rule: list_induct2) auto
  with l show ?thesis by (simp add: index_mask_def positive_mask_def)
qed

lemma false_negative_mask:
  assumes "length preds = length pts" and "length labs = length pts"
  shows "\<exists>idxs. and_tensors labs (map Not (positive_mask preds)) = Inr idxs
       \<and> index_mask pts idxs = Inr (false_negatives pts preds labs)"
proof -
  let ?idxs = "map (\<lambda>(x, y). x \<and> y) (zip labs (map Not (positive_mask preds)))"
  have a: "and_tensors labs (map Not (positive_mask preds)) = Inr ?idxs"
    using assms by (simp add: and_tensors_def positive_mask_def)
  have "length pts = length preds" "length preds = length labs" using assms by simp_all
  then have "map fst (filter snd (zip pts (map (\<lambda>(x, y). x \<and> y) (zip labs (map Not (map is_positive preds))))))
      = [p. (p, x, l) \<leftarrow> zip pts (zip preds labs), l \<and> \<not> is_positive x]"
    by (induction pts preds labs rule: list_induct3) auto
  then have b: "index_mask pts ?idxs = Inr (false_negatives pts preds labs)"
    using assms by (simp add: index_mask_def positive_mask_def false_negatives_def)
  from a b show ?thesis by blast
qed

lemma select_points_shown:
  assumes "length preds = length pts" and "length labs = length pts"
  shows "select_points gt pts preds labs =
     Inr (positives pts preds, if gt then false_negatives pts preds labs else [])"
proof -
  from false_negative_mask[OF assms] obtain idxs where
    a: "and_tensors labs (map Not (positive_mask preds)) = Inr idxs"
    and b: "index_mask pts idxs = Inr (false_negatives pts preds labs)" by blast
  show ?thesis
    unfolding select_points_def Let_def a
    by (simp add: index_mask_positives[OF assms(1)] b)
qed

lemma point_colours_shown:
  assumes "length preds = length pts" and "length labs = length pts"
  shows "point_colours col gt preds labs (length (positives pts preds))
           (length (false_negatives pts preds labs))
         = Inr (shown_colours col gt pts preds labs)"
proof -
  have l: "length preds = length labs" using assms by simp
  then have m: "map (\<lambda>l. if l then (0, 1, 0) else (1, 0, 0)) [l. (x, l) \<leftarrow> zip preds labs, is_positive x]
      = ([if l then (0, 1, 0) else (1, 0, 0). (x, l) \<leftarrow> zip preds labs, is_positive x] :: colour list)"
    by (induction preds labs rule: list_induct2) auto
  show ?thesis
    unfolding point_colours_def shown_colours_def
    by (simp add: index_mask_labels[OF l] m)
qed

lemma render_shown:
  assumes "length preds = length pts" and "length labs = length pts"
  shows "render col gt (Points pts) (Floats preds) (Bools labs) =
     Inr (if shown_points gt pts preds labs = [] then None
          else Some (map (\<lambda>(x, y, z). (x, - y, z)) (shown_points gt pts preds labs),
                     shown_colours col gt pts preds labs))"
proof (cases gt)
  case True
  have pc: "point_colours col True preds labs (length (positives pts preds))
           (length (false_negatives pts preds labs)) = Inr (shown_colours col True pts preds labs)"
    by (rule point_colours_shown[OF assms])
  show ?thesis using True
    by (simp add: select_points_shown[OF assms] pc shown_points_def Let_def)
next
  case False
  have "point_colours col False preds labs (length (positives pts preds)) 0
      = point_colours col False preds labs (length (positives pts preds))
          (length (false_negatives pts preds labs))"
    by (simp add: point_colours_def split: sum.splits)
  also have "\<dots> = Inr (shown_colours col False pts preds labs)"
    by (rule point_colours_shown[OF assms])
  finally show ?thesis using False
    by (simp add: select_points_shown[OF assms] shown_points_def Let_def)
qed

lemma getitem_frame:
  "getitem (s\<lparr>queue_in := q, last_data := l\<rparr>) data key = getitem s data key"
  by (simp add: getitem_def split: option.splits)

lemma on_timer_empty: "queue_empty (queue_in s) \<Longrightarrow> on_timer s = Returns s"
  by (simp add: on_timer_def)

lemma on_timer_nonempty:
  assumes "pipe (queue_in s) = data # rest"
  shows "on_timer s = redraw data (s\<lparr>queue_in := (queue_in s)\<lparr>pipe := rest\<rparr>, last_data := Some data\<rparr>)"
  using assms by (simp add: on_timer_def queue_empty_def queue_get_def)

lemma redraw_not_blocks: "redraw data s \<noteq> Blocks s'"
  unfolding redraw_def by (auto split: sum.splits option.splits)

lemma redraw_shown:
  assumes "getitem s data ''points'' = Inr (Points pts)"
    and "getitem s data ''predictions'' = Inr (Floats preds)"
    and "getitem s data ''labels'' = Inr (Bools labs)"
    and "length preds = length pts" and "length labs = length pts"
  shows "redraw data s =
     Returns (if shown_points (gt_f s) pts preds labs = [] then s
              else s\<lparr>scatter := scatter s @
                     [(map (\<lambda>(x, y, z). (x, - y, z)) (shown_points (gt_f s) pts preds labs),
                       shown_colours (color_f s) (gt_f s) pts preds labs)]\<rparr>)"
  unfolding redraw_def using assms(1-3)
  by (simp add: render_shown[OF assms(4,5)] del: render.simps)

text \<open>
  Claim C3, amended. On a tick that finds the queue empty (\<^verbatim>\<open>empty()\<close> answers true: no
  item is in the pipe) \<^verbatim>\<open>on_timer\<close> returns and changes nothing. On a tick that finds an
  item it does not wait; it takes exactly the item at the head of the pipe, records it as
  \<open>last_data\<close>, and calls \<^verbatim>\<open>scatter.set_data\<close> at most once. For a snapshot whose three
  tensors have the kinds and the common length the code expects it returns, and it draws
  exactly when the snapshot has a point to show (a point predicted positive or, with
  \<open>gt_f\<close> set, a false negative): then the call passes those points with the second
  coordinate negated, and their colours; otherwise the scene is left as it was.
\<close>

theorem on_timer_tick:
  "(queue_empty (queue_in s) \<longrightarrow> on_timer s = Returns s)
   \<and> (\<forall>data rest. pipe (queue_in s) = data # rest \<longrightarrow>
         (\<forall>s'. on_timer s \<noteq> Blocks s')
       \<and> pipe (queue_in (state_of (on_timer s))) = rest
       \<and> last_data (state_of (on_timer s)) = Some data
       \<and> (scatter (state_of (on_timer s)) = scatter s
          \<or> (\<exists>drawn. scatter (state_of (on_timer s)) = scatter s @ [drawn])))
   \<and> (\<forall>data rest pts preds labs.
         pipe (queue_in s) = data # rest
         \<and> getitem s data ''points'' = Inr (Points pts)
         \<and> getitem s data ''predictions'' = Inr (Floats preds)
         \<and> getitem s data ''labels'' = Inr (Bools labs)
         \<and> length preds = length pts \<and> length labs = length pts \<longrightarrow>
         on_timer s =
           Returns (s\<lparr>queue_in := (queue_in s)\<lparr>pipe := rest\<rparr>, last_data := Some data,
                      scatter :=
                        (if shown_points (gt_f s) pts preds labs = [] then scatter s
                         else scatter s @
                           [(map (\<lambda>(x, y, z). (x, - y, z)) (shown_points (gt_f s) pts preds labs),
                             shown_colours (color_f s) (gt_f s) pts preds labs)])\<rparr>))"
proof (intro conjI allI impI)
  assume "queue_empty (queue_in s)"
  then show "on_timer s = Returns s" by (rule on_timer_empty)
next
  fix data rest s'
  assume i: "pipe (queue_in s) = data # rest"
  show "on_timer s \<noteq> Blocks s'"
    unfolding on_timer_nonempty[OF i] by (rule redraw_not_blocks)
next
  fix data rest
  assume i: "pipe (queue_in s) = data # rest"
  let ?s1 = "s\<lparr>queue_in := (queue_in s)\<lparr>pipe := rest\<rparr>, last_data := Some data\<rparr>"
  from redraw_frame[of data ?s1]
  have f: "state_of (on_timer s) = ?s1
         \<or> (\<exists>drawn. state_of (on_timer s) = ?s1\<lparr>scatter := scatter ?s1 @ [drawn]\<rparr>)"
    unfolding on_timer_nonempty[OF i] .
  from f show "pipe (queue_in (state_of (on_timer s))) = rest" by auto
  from f show "last_data (state_of (on_timer s)) = Some data" by auto
  from f show "scatter (state_of (on_timer s)) = scatter s
          \<or> (\<exists>drawn. scatter (state_of (on_timer s)) = scatter s @ [drawn])" by auto
next
  fix data rest pts preds labs
  assume a: "pipe (queue_in s) = data # rest
         \<and> getitem s data ''points'' = Inr (Points pts)
         \<and> getitem s data ''predictions'' = Inr (Floats preds)
         \<and> getitem s data ''labels'' = Inr (Bools labs)
         \<and> length preds = length pts \<and> length labs = length pts"
  let ?s1 = "s\<lparr>queue_in := (queue_in s)\<lparr>pipe := rest\<rparr>, last_data := Some data\<rparr>"
  from a have i: "pipe (queue_in s) = data # rest" by simp
  have g: "getitem ?s1 data ''points'' = Inr (Points pts)"
    "getitem ?s1 data ''predictions'' = Inr (Floats preds)"
    "getitem ?s1 data ''labels'' = Inr (Bools labs)"
    using a by (simp_all only: getitem_frame)
  from a have l: "length preds = length pts" "length labs = length pts" by simp_all
  show "on_timer s =
           Returns (s\<lparr>queue_in := (queue_in s)\<lparr>pipe := rest\<rparr>, last_data := Some data,
                      scatter :=
                        (if shown_points (gt_f s) pts preds labs = [] then scatter s
                         else scatter s @
                           [(map (\<lambda>(x, y, z). (x, - y, z)) (shown_points (gt_f s) pts preds labs),
                             shown_colours (color_f s) (gt_f s) pts preds labs)])\<rparr>)"
    unfolding on_timer_nonempty[OF i] redraw_shown[OF g l] by simp
qed

theorem on_timer_tick_witness:
  "pipe (queue_in demo_running) = [2]
   \<and> on_timer demo_running = Returns demo_idle
   \<and> scatter demo_idle = scatter demo_running @ [([(1, - 2, 3)], [(0, 1, 0)])]
   \<and> queue_empty (queue_in demo_idle)
   \<and> on_timer demo_idle = Returns demo_idle"
proof -
  let ?pts = "[(0, 0, 0), (1, 2, 3)] :: point list"
  let ?preds = "[0, 2] :: real list"
  let ?labs = "[False, True]"
  have a: "pipe (queue_in demo_running) = 2 # []
         \<and> getitem demo_running 2 ''points'' = Inr (Points ?pts)
         \<and> getitem demo_running 2 ''predictions'' = Inr (Floats ?preds)
         \<and> getitem demo_running 2 ''labels'' = Inr (Bools ?labs)
         \<and> length ?preds = length ?pts \<and> length ?labs = length ?pts"
    by (simp add: demo_running_def getitem_def)
  have sp: "shown_points (gt_f demo_running) ?pts ?preds ?labs = [(1, 2, 3)]"
    by (simp add: shown_points_def positives_def false_negatives_def demo_running_def
        is_positive_0 is_positive_2)
  have sc: "shown_colours (color_f demo_running) (gt_f demo_running) ?pts ?preds ?labs = [(0, 1, 0)]"
    by (simp add: shown_colours_def positives_def false_negatives_def demo_running_def
        is_positive_0 is_positive_2)
  note t = on_timer_tick[of demo_running]
  from t a have "on_timer demo_running =
           Returns (demo_running\<lparr>queue_in := (queue_in demo_running)\<lparr>pipe := []\<rparr>,
                      last_data := Some 2,
                      scatter :=
                        (if shown_points (gt_f demo_running) ?pts ?preds ?labs = []
                         then scatter demo_running
                         else scatter demo_running @
                           [(map (\<lambda>(x, y, z). (x, - y, z))
                               (shown_points (gt_f demo_running) ?pts ?preds ?labs),
                             shown_colours (color_f demo_running) (gt_f demo_running)
                               ?pts ?preds ?labs)])\<rparr>)"
    by blast
  then have r: "on_timer demo_running = Returns demo_idle"
    unfolding sp sc by (simp add: demo_idle_def demo_running_def)
  have e: "queue_empty (queue_in demo_idle)"
    by (simp add: queue_empty_def demo_idle_def)
  from on_timer_tick[of demo_idle] e have r2: "on_timer demo_idle = Returns demo_idle" by blast
  have s: "scatter demo_idle = scatter demo_running @ [([(1, - 2, 3)], [(0, 1, 0)])]"
    by (simp add: demo_idle_def demo_running_def)
  have q: "pipe (queue_in demo_running) = [2]" by (simp add: demo_running_def)
  from q r s e r2 show ?thesis by (intro conjI)
qed

text \<open>
  Claim C3 as stated fails. In the example program the parent passes the snapshot that has
  nothing to show, and the feeder thread writes it to the pipe. On the next tick the queue
  is not empty and \<^verbatim>\<open>on_timer\<close> takes the item, but \<^verbatim>\<open>scatter.set_data\<close> is not called.
\<close>

theorem on_timer_no_redraw_counterexample:
  "\<exists>s s'. execute (first_update 1 @ [Feeder_step Parent]) demo = Some s
      \<and> pipe (queue_in s) = [2]
      \<and> on_timer s = Returns s'
      \<and> pipe (queue_in s') = [] \<and> last_data s' = Some 2
      \<and> scatter s' = scatter s"
  by (simp add: demo_def first_update_def vis_defs is_positive_0)

text \<open>
  Claim C1 fails on an interleaving of the two producers. In the example program the worker
  has drawn a snapshot; the parent calls \<^verbatim>\<open>update\<close> again and finds the queue empty on
  line 134; before it reaches line 135 a key press makes \<^verbatim>\<open>dispatch\<close> put \<open>last_data\<close>
  back. The queue then has no free slot and the parent is held in \<^verbatim>\<open>put\<close>, until the
  worker has taken the item.
\<close>

theorem update_blocks_behind_requeue:
  "\<exists>s. execute (first_update 0 @ [Feeder_step Parent, Timer_tick, Call_update 1, Parent_step,
                                   Key_press ''c'']) demo = Some s
      \<and> setup_f s \<and> parent_at s = PPut 3 \<and> queued (queue_in s) = [2]
      \<and> update_put 3 s = Blocks s
      \<and> step Parent_step s = None
      \<and> (\<exists>s'. execute [Feeder_step Worker, Timer_tick, Parent_step] s = Some s'
            \<and> parent_at s' = PIdle \<and> queued (queue_in s') = [3])"
  by (simp add: demo_def first_update_def vis_defs is_positive_0 is_positive_2)

text \<open>
  A second run on which \<^verbatim>\<open>update\<close> is held: two calls one after the other, the second
  made before the feeder thread has written the item of the first to the pipe. The test of
  line 134 still finds the queue empty, and \<^verbatim>\<open>put\<close> finds no free slot.
\<close>

lemma update_blocks_behind_buffer:
  "\<exists>s. execute (first_update 0 @ [Call_update 1, Parent_step]) demo = Some s
      \<and> setup_f s \<and> parent_at s = PPut 3
      \<and> queued (queue_in s) = [2] \<and> queue_empty (queue_in s)
      \<and> update_put 3 s = Blocks s
      \<and> step Parent_step s = None
      \<and> (\<exists>s'. execute [Feeder_step Parent, Timer_tick, Parent_step] s = Some s'
            \<and> parent_at s' = PIdle \<and> queued (queue_in s') = [3])"
  by (simp add: demo_def first_update_def vis_defs is_positive_0 is_positive_2)

text \<open>
  Claim C6 fails in its first part. In the example program the parent calls \<^verbatim>\<open>stop\<close>
  while an item is in the queue. The queue is as before, and so is the worker: its event
  loop is running, and its next tick takes the item.
\<close>

theorem stop_leaves_worker_running:
  "\<exists>s. execute (first_update 0 @ [Feeder_step Parent, Call_stop]) demo = Some s
      \<and> queue_in s = queue_in demo_running
      \<and> app_running s Worker \<and> in_loop s
      \<and> (\<exists>s'. step Timer_tick s = Some s' \<and> queued (queue_in s') = [] \<and> last_data s' = Some 2)"
  by (simp add: demo_def demo_running_def first_update_def vis_defs is_positive_0 is_positive_2
      buffer_clear)

lemma stop_frame:
  "queue_in (stop p s) = queue_in s"
  "app_running (stop Parent s) Worker = app_running s Worker"
  "app_running (stop p s) p = False"
  by (simp_all add: stop_def)

end
